theory Spec2Isabelle
  imports Main "HOL-Library.AList"
begin

section \<open>Values, errors and the outside world\<close>

text \<open>
  The three scripts keep their state in JSON documents and pass Python dictionaries
  around. A document, and every dictionary read from one, is a \<open>json\<close> value. An object
  is an association list in key order (a Python dict keeps insertion order); the first
  binding of a key is the dict's value. Floating point numbers are left out.
\<close>

datatype json =
    JNull
  | JBool bool
  | JInt int
  | JStr string
  | JArr "json list"
  | JObj "(string \<times> json) list"

text \<open>The exceptions the scripts can raise, as values.\<close>

datatype error =
    JSONDecodeError
  | KeyError
  | TypeError
  | AttributeError
  | ValueError string
  | RuntimeError string
  | OtherError string

text \<open>Python's truth value of a JSON value (\<open>if v\<close>, \<open>not v\<close>).\<close>

fun truthy :: "json \<Rightarrow> bool" where
  "truthy JNull = False"
| "truthy (JBool b) = b"
| "truthy (JInt n) = (n \<noteq> 0)"
| "truthy (JStr s) = (s \<noteq> [])"
| "truthy (JArr xs) = (xs \<noteq> [])"
| "truthy (JObj kvs) = (kvs \<noteq> [])"

text \<open>\<open>e.get(k, d)\<close>: only a dict has the method.\<close>

fun dict_get :: "json \<Rightarrow> string \<Rightarrow> json \<Rightarrow> error + json" where
  "dict_get (JObj kvs) k d = Inr (case map_of kvs k of None \<Rightarrow> d | Some v \<Rightarrow> v)"
| "dict_get _ k d = Inl AttributeError"

text \<open>\<open>e[k]\<close> with a string key: a missing key of a dict is a KeyError, anything
  that is not a dict cannot be indexed by a string.\<close>

fun subscript :: "json \<Rightarrow> string \<Rightarrow> error + json" where
  "subscript (JObj kvs) k = (case map_of kvs k of None \<Rightarrow> Inl KeyError | Some v \<Rightarrow> Inr v)"
| "subscript _ k = Inl TypeError"

text \<open>\<open>e[k] = v\<close>: updates the binding in place, or adds it at the end.\<close>

fun set_item :: "json \<Rightarrow> string \<Rightarrow> json \<Rightarrow> error + json" where
  "set_item (JObj kvs) k v = Inr (JObj (AList.update k v kvs))"
| "set_item _ k v = Inl TypeError"

text \<open>
  Membership in a Python set goes through hash and equality: \<open>True == 1\<close> and
  \<open>False == 0\<close>, lists and dicts cannot be hashed.
\<close>

datatype hkey = HNone | HNum int | HStr string

fun hash_key :: "json \<Rightarrow> error + hkey" where
  "hash_key JNull = Inr HNone"
| "hash_key (JBool b) = Inr (HNum (if b then 1 else 0))"
| "hash_key (JInt n) = Inr (HNum n)"
| "hash_key (JStr s) = Inr (HStr s)"
| "hash_key (JArr xs) = Inl TypeError"
| "hash_key (JObj kvs) = Inl TypeError"

text \<open>\<open>for e in v\<close> over a JSON value: a dict yields its keys, a string its
  characters, a scalar cannot be iterated.\<close>

fun py_iter :: "json \<Rightarrow> error + json list" where
  "py_iter (JArr xs) = Inr xs"
| "py_iter (JObj kvs) = Inr (map (\<lambda>kv. JStr (fst kv)) kvs)"
| "py_iter (JStr s) = Inr (map (\<lambda>c. JStr [c]) s)"
| "py_iter _ = Inl TypeError"

text \<open>
  The text of a stored file, as the JSON parser sees it: blank (empty after
  \<open>strip()\<close>), not JSON, or a JSON value. A file that does not exist is \<open>None\<close>.
\<close>

datatype content = Blank | Garbage | Json json

datatype path = HistoryFile string | ActivityFile | TelegramBotFile

text \<open>What a search provider returns for one hit (the four keys both clients build).\<close>

record result =
  link :: string
  title :: string
  snippet :: string
  display_link :: string

datatype provider = SerpApi | GoogleCse

text \<open>The message text \<open>Keyword: {kw}\n{link}\<close>, kept as its two interpolated values.\<close>

datatype message = Message (msg_keyword: json) (msg_link: json)

text \<open>Every line the scripts print.\<close>

datatype line =
    LRuleNL | LKeyword string | LRule
  | LTitle nat string | LLink string | LSnippet string | LBlank
  | LErrorFor string error
  | LNewUrls nat
  | LSaved string
  | LNothingToSend
  | LNoTelegramCreds
  | LSending nat
  | LProgress nat nat nat
  | LSent nat
  | LSendFailed string
  | LSetCreds
  | LNoBotFile
  | LMarkedUnsent
  | LNothingPending
  | LSendingPending nat
  | LDone nat nat
  | LFailed string
  | LCheck

text \<open>The effects of a run, in the order they happen.\<close>

datatype event =
    Print line
  | Wrote path json
  | Sent message bool string
  | Searched provider string int

record world =
  files :: "path \<Rightarrow> content option"
  trace :: "event list"

text \<open>
  The environment variables the scripts read, and the external collaborators: the
  Telegram call \<open>_send_one_telegram_message\<close> (returns success and an error message) and
  the two paginating search clients \<open>_search_serpapi\<close> and \<open>_search_google_cse\<close>
  (return the hits or raise). Each is a function of the number of calls made before.
\<close>

record env =
  TELEGRAM_BOT_TOKEN :: "string option"
  TELEGRAM_GROUP_CHAT_ID :: "string option"
  SERPAPI_KEY :: "string option"
  GOOGLE_SEARCH_API_KEY :: "string option"
  GOOGLE_SEARCH_ENGINE_ID :: "string option"

record ext =
  telegram_api :: "nat \<Rightarrow> message \<Rightarrow> string \<Rightarrow> string \<Rightarrow> bool \<times> string"
  serpapi :: "nat \<Rightarrow> string \<Rightarrow> int \<Rightarrow> string \<Rightarrow> error + result list"
  google_cse :: "nat \<Rightarrow> string \<Rightarrow> int \<Rightarrow> string \<Rightarrow> string \<Rightarrow> string \<Rightarrow> error + result list"

definition emit :: "event \<Rightarrow> world \<Rightarrow> world" where
  "emit e w = w\<lparr>trace := trace w @ [e]\<rparr>"

definition write_file :: "path \<Rightarrow> json \<Rightarrow> world \<Rightarrow> world" where
  "write_file p v w = w\<lparr>files := (files w)(p \<mapsto> Json v), trace := trace w @ [Wrote p v]\<rparr>"

fun sends :: "event list \<Rightarrow> (message \<times> bool \<times> string) list" where
  "sends [] = []"
| "sends (Sent m ok err # es) = (m, ok, err) # sends es"
| "sends (_ # es) = sends es"

fun searches :: "event list \<Rightarrow> (provider \<times> string \<times> int) list" where
  "searches [] = []"
| "searches (Searched p k n # es) = (p, k, n) # searches es"
| "searches (_ # es) = searches es"

fun prints :: "event list \<Rightarrow> line list" where
  "prints [] = []"
| "prints (Print l # es) = l # prints es"
| "prints (_ # es) = prints es"

fun writes :: "event list \<Rightarrow> (path \<times> json) list" where
  "writes [] = []"
| "writes (Wrote p v # es) = (p, v) # writes es"
| "writes (_ # es) = writes es"

section \<open>google\_search\_tool.py\<close>

text \<open>A string that Python treats as true: set and not empty.\<close>

definition truthy_str :: "string option \<Rightarrow> bool" where
  "truthy_str s = (case s of None \<Rightarrow> False | Some t \<Rightarrow> t \<noteq> [])"

definition py_or :: "string option \<Rightarrow> string option \<Rightarrow> string option" where
  "py_or a b = (if truthy_str a then a else b)"

definition search_serpapi :: "ext \<Rightarrow> string \<Rightarrow> int \<Rightarrow> string \<Rightarrow> world \<Rightarrow> (error + result list) \<times> world" where
  "search_serpapi x keyword num_results api_key w =
     (serpapi x (length (searches (trace w))) keyword num_results api_key,
      emit (Searched SerpApi keyword num_results) w)"

definition search_google_cse :: "ext \<Rightarrow> string \<Rightarrow> int \<Rightarrow> string \<Rightarrow> string \<Rightarrow> string \<Rightarrow> world \<Rightarrow> (error + result list) \<times> world" where
  "search_google_cse x keyword num_results api_key search_engine_id lang w =
     (google_cse x (length (searches (trace w))) keyword num_results api_key search_engine_id lang,
      emit (Searched GoogleCse keyword num_results) w)"

definition no_serpapi_key :: string where
  "no_serpapi_key = ''SerpAPI requested but no key. Set SERPAPI_KEY in .env or pass serpapi_key=...''"

definition no_google_credentials :: string where
  "no_google_credentials = ''Google Custom Search requested but credentials missing. Set GOOGLE_SEARCH_API_KEY and GOOGLE_SEARCH_ENGINE_ID, or use SerpAPI by setting SERPAPI_KEY.''"

definition search_google :: "ext \<Rightarrow> env \<Rightarrow> string \<Rightarrow> int \<Rightarrow> string option \<Rightarrow> string option \<Rightarrow> string \<Rightarrow> bool option \<Rightarrow> string option \<Rightarrow> world \<Rightarrow> (error + result list) \<times> world" where
  "search_google x ev keyword num_results api_key search_engine_id lang use_serpapi serpapi_key w =
     (if num_results \<le> 0 then (Inr [], w)
      else
        let serp_key = py_or serpapi_key (SERPAPI_KEY ev);
            google_key = py_or api_key (GOOGLE_SEARCH_API_KEY ev);
            cx = py_or search_engine_id (GOOGLE_SEARCH_ENGINE_ID ev);
            use_serp = (case use_serpapi of None \<Rightarrow> truthy_str serp_key | Some b \<Rightarrow> b)
        in if use_serp then
             (case serp_key of
                Some k \<Rightarrow>
                  if k = [] then (Inl (ValueError no_serpapi_key), w)
                  else search_serpapi x keyword num_results k w
              | None \<Rightarrow> (Inl (ValueError no_serpapi_key), w))
           else
             (case (google_key, cx) of
                (Some g, Some c) \<Rightarrow>
                  if g = [] \<or> c = [] then (Inl (ValueError no_google_credentials), w)
                  else search_google_cse x keyword num_results g c lang w
              | _ \<Rightarrow> (Inl (ValueError no_google_credentials), w)))"

section \<open>run\_keywords.py\<close>

text \<open>\<open>json.load\<close>: text that is not JSON raises.\<close>

fun json_load :: "content \<Rightarrow> error + json" where
  "json_load (Json v) = Inr v"
| "json_load Blank = Inl JSONDecodeError"
| "json_load Garbage = Inl JSONDecodeError"

text \<open>\<open>xs.append(v)\<close>: only a list has the method.\<close>

fun list_append :: "json \<Rightarrow> json \<Rightarrow> error + json" where
  "list_append (JArr xs) v = Inr (JArr (xs @ [v]))"
| "list_append _ v = Inl AttributeError"

text \<open>
  The guarded read of telegram\_bot.json (run\_keywords.py lines 75-82,
  send\_telegram\_pending.py lines 54-61): blank text, text that is not JSON and a
  document that is not a list all give the empty list.
\<close>

fun parse_bot_list :: "content \<Rightarrow> json list" where
  "parse_bot_list (Json (JArr xs)) = xs"
| "parse_bot_list _ = []"

definition load_bot_list :: "content option \<Rightarrow> json list" where
  "load_bot_list f = (case f of None \<Rightarrow> [] | Some c \<Rightarrow> parse_bot_list c)"

text \<open>The set comprehension \<open>{e["url"] for e in xs}\<close>, left to right.\<close>

fun url_set :: "json list \<Rightarrow> error + hkey set" where
  "url_set [] = Inr {}"
| "url_set (e # es) =
     (case subscript e ''url'' of
        Inl x \<Rightarrow> Inl x
      | Inr u \<Rightarrow>
          (case hash_key u of
             Inl x \<Rightarrow> Inl x
           | Inr k \<Rightarrow>
               (case url_set es of
                  Inl x \<Rightarrow> Inl x
                | Inr s \<Rightarrow> Inr (insert k s))))"

text \<open>
  The two loops of \<open>_sync_telegram_bot_and_send\<close> that add entries to \<open>bot_list\<close>
  (lines 89-99 with \<open>telegram_sent: True\<close>, lines 101-111 with \<open>False\<close>).
\<close>

fun add_entries :: "bool \<Rightarrow> json list \<Rightarrow> hkey set \<Rightarrow> json list \<Rightarrow> error + hkey set \<times> json list" where
  "add_entries flag [] seen_urls bot_list = Inr (seen_urls, bot_list)"
| "add_entries flag (e # es) seen_urls bot_list =
     (case e of
        JObj kvs \<Rightarrow>
          (let url = (case map_of kvs ''url'' of None \<Rightarrow> JNull | Some v \<Rightarrow> v) in
           if \<not> truthy url then add_entries flag es seen_urls bot_list
           else
             (case hash_key url of
                Inl x \<Rightarrow> Inl x
              | Inr k \<Rightarrow>
                  if k \<in> seen_urls then add_entries flag es seen_urls bot_list
                  else add_entries flag es (insert k seen_urls)
                         (bot_list @
                          [JObj [(''url'', url),
                                 (''first_seen'', case map_of kvs ''first_seen'' of None \<Rightarrow> JStr [] | Some v \<Rightarrow> v),
                                 (''keyword'', case map_of kvs ''keyword'' of None \<Rightarrow> JStr [] | Some v \<Rightarrow> v),
                                 (''title'', case map_of kvs ''title'' of None \<Rightarrow> JStr [] | Some v \<Rightarrow> v),
                                 (''telegram_sent'', JBool flag)]])))
      | _ \<Rightarrow> Inl AttributeError)"

text \<open>
  \<open>pending = [e for e in bot_list if e.get("telegram_sent") is False]\<close>. The list holds
  references to the dicts of \<open>bot_list\<close>: here, their positions.
\<close>

fun pending_refs :: "json list \<Rightarrow> nat \<Rightarrow> error + nat list" where
  "pending_refs [] j = Inr []"
| "pending_refs (e # es) j =
     (case dict_get e ''telegram_sent'' JNull of
        Inl x \<Rightarrow> Inl x
      | Inr v \<Rightarrow>
          (case pending_refs es (Suc j) of
             Inl x \<Rightarrow> Inl x
           | Inr ps \<Rightarrow> Inr (if v = JBool False then j # ps else ps)))"

definition progress :: "nat \<Rightarrow> nat \<Rightarrow> nat \<Rightarrow> world \<Rightarrow> world" where
  "progress i total_pending sent_count w =
     (if i mod 10 = 0 \<or> i = total_pending then emit (Print (LProgress i total_pending sent_count)) w else w)"

text \<open>
  The delivery loop (run\_keywords.py lines 131-145, send\_telegram\_pending.py lines
  80-94), over \<open>enumerate(pending, 1)\<close>. The state is \<open>bot_list\<close>, \<open>sent_count\<close> and
  \<open>first_error\<close>.
\<close>

fun send_loop :: "ext \<Rightarrow> string \<Rightarrow> string \<Rightarrow> nat \<Rightarrow> (nat \<times> nat) list \<Rightarrow> json list \<times> nat \<times> string \<Rightarrow> world
    \<Rightarrow> (error + json list \<times> nat \<times> string) \<times> world" where
  "send_loop x token chat_id total_pending [] st w = (Inr st, w)"
| "send_loop x token chat_id total_pending ((i, j) # rest) (bot_list, sent_count, first_error) w =
     (case dict_get (bot_list ! j) ''url'' (JStr []) of
        Inl e \<Rightarrow> (Inl e, w)
      | Inr lnk \<Rightarrow>
          if \<not> truthy lnk then send_loop x token chat_id total_pending rest (bot_list, sent_count, first_error) w
          else
            (case dict_get (bot_list ! j) ''keyword'' (JStr []) of
               Inl e \<Rightarrow> (Inl e, w)
             | Inr kw \<Rightarrow>
                 (case telegram_api x (length (sends (trace w))) (Message kw lnk) token chat_id of
                    (ok, err) \<Rightarrow>
                      if ok then
                        (case set_item (bot_list ! j) ''telegram_sent'' (JBool True) of
                           Inl e \<Rightarrow> (Inl e, emit (Sent (Message kw lnk) ok err) w)
                         | Inr e' \<Rightarrow>
                             send_loop x token chat_id total_pending rest
                               (bot_list[j := e'], Suc sent_count, first_error)
                               (progress i total_pending (Suc sent_count) (emit (Sent (Message kw lnk) ok err) w)))
                      else
                        send_loop x token chat_id total_pending rest
                          (bot_list, sent_count, if first_error = [] then err else first_error)
                          (progress i total_pending sent_count (emit (Sent (Message kw lnk) ok err) w)))))"

text \<open>The backfill of lines 86-99: the activity document is read without a guard.\<close>

definition backfill :: "content \<Rightarrow> hkey set \<Rightarrow> json list \<Rightarrow> error + hkey set \<times> json list" where
  "backfill c seen_urls bot_list =
     (case json_load c of
        Inl x \<Rightarrow> Inl x
      | Inr activity_list \<Rightarrow>
          (case py_iter activity_list of
             Inl x \<Rightarrow> Inl x
           | Inr es \<Rightarrow> add_entries True es seen_urls bot_list))"

definition sync_telegram_bot_and_send :: "ext \<Rightarrow> env \<Rightarrow> json list \<Rightarrow> world \<Rightarrow> (error + unit) \<times> world" where
  "sync_telegram_bot_and_send x ev new_activity_entries w =
     (let loaded = load_bot_list (files w TelegramBotFile) in
      case url_set loaded of
        Inl e \<Rightarrow> (Inl e, w)
      | Inr seen0 \<Rightarrow>
          (case (case files w ActivityFile of
                   Some c \<Rightarrow> if loaded = [] then backfill c seen0 loaded else Inr (seen0, loaded)
                 | None \<Rightarrow> Inr (seen0, loaded)) of
             Inl e \<Rightarrow> (Inl e, w)
           | Inr (seen1, filled) \<Rightarrow>
               (case add_entries False new_activity_entries seen1 filled of
                  Inl e \<Rightarrow> (Inl e, w)
                | Inr (seen2, bot_list) \<Rightarrow>
                    (case pending_refs bot_list 0 of
                       Inl e \<Rightarrow> (Inl e, w)
                     | Inr pending \<Rightarrow>
                         if pending = [] then
                           (Inr (), emit (Print LNothingToSend) (write_file TelegramBotFile (JArr bot_list) w))
                         else
                           (case (TELEGRAM_BOT_TOKEN ev, TELEGRAM_GROUP_CHAT_ID ev) of
                              (Some token, Some chat_id) \<Rightarrow>
                                if token = [] \<or> chat_id = [] then
                                  (Inr (), emit (Print LNoTelegramCreds) (write_file TelegramBotFile (JArr bot_list) w))
                                else
                                  (case send_loop x token chat_id (length pending) (enumerate 1 pending)
                                          (bot_list, 0, []) (emit (Print (LSending (length pending))) w) of
                                     (Inl e, w1) \<Rightarrow> (Inl e, w1)
                                   | (Inr (sent_list, sent_count, first_error), w1) \<Rightarrow>
                                       (Inr (),
                                        emit (Print (if sent_count \<noteq> 0 then LSent sent_count else LSendFailed first_error))
                                          (write_file TelegramBotFile (JArr sent_list) w1)))
                            | _ \<Rightarrow>
                                (Inr (), emit (Print LNoTelegramCreds) (write_file TelegramBotFile (JArr bot_list) w)))))))"

text \<open>\<open>_save_history\<close>: the day's document is read without a guard, the run is appended
  to its \<open>runs\<close> list and the whole document is written back.\<close>

definition results_json :: "(string \<times> json list) list \<Rightarrow> json" where
  "results_json results_by_keyword = JObj (map (\<lambda>kv. (fst kv, JArr (snd kv))) results_by_keyword)"

definition save_history :: "string \<Rightarrow> (string \<times> json list) list \<Rightarrow> world \<Rightarrow> (error + unit) \<times> world" where
  "save_history run_at results_by_keyword w =
     (let date_str = take 10 run_at in
      case (case files w (HistoryFile date_str) of
              Some c \<Rightarrow> json_load c
            | None \<Rightarrow> Inr (JObj [(''date'', JStr date_str), (''runs'', JArr [])])) of
        Inl e \<Rightarrow> (Inl e, w)
      | Inr data \<Rightarrow>
          (case subscript data ''runs'' of
             Inl e \<Rightarrow> (Inl e, w)
           | Inr runs \<Rightarrow>
               (case list_append runs
                       (JObj [(''run_at'', JStr run_at), (''results'', results_json results_by_keyword)]) of
                  Inl e \<Rightarrow> (Inl e, w)
                | Inr runs' \<Rightarrow>
                    (case set_item data ''runs'' runs' of
                       Inl e \<Rightarrow> (Inl e, w)
                     | Inr data' \<Rightarrow> (Inr (), write_file (HistoryFile date_str) data' w)))))"

text \<open>\<open>_save_activity\<close>: the inner loop over one keyword's items, the outer loop over
  \<open>results_by_keyword.items()\<close>, and the function. The state of the loops is
  \<open>seen_urls\<close>, \<open>existing\<close> and \<open>new_entries\<close>.\<close>

fun record_items :: "string \<Rightarrow> string \<Rightarrow> json list \<Rightarrow> hkey set \<times> json \<times> json list \<Rightarrow> error + hkey set \<times> json \<times> json list" where
  "record_items run_at keyword [] st = Inr st"
| "record_items run_at keyword (r # items) (seen_urls, existing, new_entries) =
     (case dict_get r ''link'' JNull of
        Inl e \<Rightarrow> Inl e
      | Inr lnk \<Rightarrow>
          if \<not> truthy lnk then record_items run_at keyword items (seen_urls, existing, new_entries)
          else
            (case hash_key lnk of
               Inl e \<Rightarrow> Inl e
             | Inr k \<Rightarrow>
                 if k \<in> seen_urls then record_items run_at keyword items (seen_urls, existing, new_entries)
                 else
                   (case dict_get r ''title'' (JStr []) of
                      Inl e \<Rightarrow> Inl e
                    | Inr t \<Rightarrow>
                        (case list_append existing
                                (JObj [(''url'', lnk), (''first_seen'', JStr run_at),
                                       (''keyword'', JStr keyword), (''title'', t)]) of
                           Inl e \<Rightarrow> Inl e
                         | Inr existing' \<Rightarrow>
                             record_items run_at keyword items
                               (insert k seen_urls, existing',
                                new_entries @
                                [JObj [(''url'', lnk), (''first_seen'', JStr run_at),
                                       (''keyword'', JStr keyword), (''title'', t)]])))))"

fun record_all :: "string \<Rightarrow> (string \<times> json list) list \<Rightarrow> hkey set \<times> json \<times> json list \<Rightarrow> error + hkey set \<times> json \<times> json list" where
  "record_all run_at [] st = Inr st"
| "record_all run_at ((keyword, items) # rest) st =
     (case record_items run_at keyword items st of
        Inl e \<Rightarrow> Inl e
      | Inr st' \<Rightarrow> record_all run_at rest st')"

definition save_activity :: "string \<Rightarrow> (string \<times> json list) list \<Rightarrow> world \<Rightarrow> (error + json list) \<times> world" where
  "save_activity run_at results_by_keyword w =
     (case (case files w ActivityFile of Some c \<Rightarrow> json_load c | None \<Rightarrow> Inr (JArr [])) of
        Inl e \<Rightarrow> (Inl e, w)
      | Inr loaded \<Rightarrow>
          (case py_iter loaded of
             Inl e \<Rightarrow> (Inl e, w)
           | Inr es \<Rightarrow>
               (case url_set es of
                  Inl e \<Rightarrow> (Inl e, w)
                | Inr seen0 \<Rightarrow>
                    (case record_all run_at results_by_keyword (seen0, loaded, []) of
                       Inl e \<Rightarrow> (Inl e, w)
                     | Inr (seen_urls, existing, new_entries) \<Rightarrow>
                         (Inr new_entries, write_file ActivityFile existing w)))))"

text \<open>
  \<open>main\<close> of run\_keywords.py from line 206 on, with the loaded configuration
  (\<open>keywords\<close>, \<open>results_per_keyword\<close>) and the clock reading \<open>run_at\<close> as arguments. A
  ValueError or RuntimeError of the search is caught per keyword, and so is a
  JSONDecodeError (raised by \<open>resp.json()\<close>), which is a subclass of ValueError; any
  other error ends the run.
\<close>

definition result_dict :: "result \<Rightarrow> json" where
  "result_dict r = JObj [(''link'', JStr (link r)), (''title'', JStr (title r)),
                         (''snippet'', JStr (snippet r)), (''display_link'', JStr (display_link r))]"

fun print_results :: "nat \<Rightarrow> result list \<Rightarrow> world \<Rightarrow> world" where
  "print_results i [] w = w"
| "print_results i (r # rs) w =
     print_results (Suc i) rs
       (emit (Print LBlank)
          ((if snippet r \<noteq> [] then emit (Print (LSnippet (take 120 (snippet r)))) else id)
             (emit (Print (LLink (link r))) (emit (Print (LTitle i (title r))) w))))"

fun search_all :: "ext \<Rightarrow> env \<Rightarrow> int \<Rightarrow> string list \<Rightarrow> (string \<times> json list) list \<Rightarrow> world
    \<Rightarrow> (error + (string \<times> json list) list) \<times> world" where
  "search_all x ev results_per_keyword [] results_by_keyword w = (Inr results_by_keyword, w)"
| "search_all x ev results_per_keyword (keyword # rest) results_by_keyword w =
     (case search_google x ev keyword results_per_keyword None None ''lang_en'' None None
             (emit (Print LRule) (emit (Print (LKeyword keyword)) (emit (Print LRuleNL) w))) of
        (Inr results, w1) \<Rightarrow>
          search_all x ev results_per_keyword rest
            (AList.update keyword (map result_dict results) results_by_keyword)
            (print_results 1 results w1)
      | (Inl (ValueError msg), w1) \<Rightarrow>
          search_all x ev results_per_keyword rest (AList.update keyword [] results_by_keyword)
            (emit (Print (LErrorFor keyword (ValueError msg))) w1)
      | (Inl (RuntimeError msg), w1) \<Rightarrow>
          search_all x ev results_per_keyword rest (AList.update keyword [] results_by_keyword)
            (emit (Print (LErrorFor keyword (RuntimeError msg))) w1)
      | (Inl JSONDecodeError, w1) \<Rightarrow>
          search_all x ev results_per_keyword rest (AList.update keyword [] results_by_keyword)
            (emit (Print (LErrorFor keyword JSONDecodeError)) w1)
      | (Inl e, w1) \<Rightarrow> (Inl e, w1))"

definition run_keywords_main :: "ext \<Rightarrow> env \<Rightarrow> string list \<Rightarrow> int \<Rightarrow> string \<Rightarrow> world \<Rightarrow> (error + unit) \<times> world" where
  "run_keywords_main x ev keywords results_per_keyword run_at w =
     (case search_all x ev results_per_keyword keywords [] w of
        (Inl e, w1) \<Rightarrow> (Inl e, w1)
      | (Inr results_by_keyword, w1) \<Rightarrow>
          (case save_history run_at results_by_keyword w1 of
             (Inl e, w2) \<Rightarrow> (Inl e, w2)
           | (Inr u, w2) \<Rightarrow>
               (case save_activity run_at results_by_keyword w2 of
                  (Inl e, w3) \<Rightarrow> (Inl e, w3)
                | (Inr new_entries, w3) \<Rightarrow>
                    (case sync_telegram_bot_and_send x ev new_entries
                            (emit (Print (LNewUrls (length new_entries))) w3) of
                       (Inl e, w4) \<Rightarrow> (Inl e, w4)
                     | (Inr u', w4) \<Rightarrow> (Inr (), emit (Print (LSaved (take 10 run_at))) w4)))))"

section \<open>send\_telegram\_pending.py\<close>

text \<open>\<open>for e in bot_list: e["telegram_sent"] = False\<close>.\<close>

fun mark_all_unsent :: "json list \<Rightarrow> error + json list" where
  "mark_all_unsent [] = Inr []"
| "mark_all_unsent (e # es) =
     (case set_item e ''telegram_sent'' (JBool False) of
        Inl x \<Rightarrow> Inl x
      | Inr e' \<Rightarrow>
          (case mark_all_unsent es of
             Inl x \<Rightarrow> Inl x
           | Inr es' \<Rightarrow> Inr (e' # es')))"

text \<open>The part of \<open>main\<close> after both credentials and the file are known to be there.\<close>

definition send_pending :: "ext \<Rightarrow> string \<Rightarrow> string \<Rightarrow> bool \<Rightarrow> content \<Rightarrow> world \<Rightarrow> (error + unit) \<times> world" where
  "send_pending x token chat_id resend_all c w =
     (case (if resend_all then mark_all_unsent (parse_bot_list c) else Inr (parse_bot_list c)) of
        Inl e \<Rightarrow> (Inl e, w)
      | Inr bot_list \<Rightarrow>
          (case pending_refs bot_list 0 of
             Inl e \<Rightarrow> (Inl e, if resend_all then emit (Print LMarkedUnsent) w else w)
           | Inr pending \<Rightarrow>
               if pending = [] then
                 (Inr (),
                  (if resend_all then write_file TelegramBotFile (JArr bot_list) else id)
                    (emit (Print LNothingPending) (if resend_all then emit (Print LMarkedUnsent) w else w)))
               else
                 (case send_loop x token chat_id (length pending) (enumerate 1 pending) (bot_list, 0, [])
                         (emit (Print (LSendingPending (length pending)))
                            (if resend_all then emit (Print LMarkedUnsent) w else w)) of
                    (Inl e, w1) \<Rightarrow> (Inl e, w1)
                  | (Inr (sent_list, sent_count, first_error), w1) \<Rightarrow>
                      (Inr (),
                       if sent_count \<noteq> 0 then
                         emit (Print (LDone sent_count (length pending)))
                           (write_file TelegramBotFile (JArr sent_list) w1)
                       else
                         emit (Print LCheck)
                           (emit (Print (LFailed first_error))
                              (write_file TelegramBotFile (JArr sent_list) w1))))))"

definition send_telegram_pending_main :: "ext \<Rightarrow> env \<Rightarrow> bool \<Rightarrow> world \<Rightarrow> (error + unit) \<times> world" where
  "send_telegram_pending_main x ev resend_all w =
     (case (TELEGRAM_BOT_TOKEN ev, TELEGRAM_GROUP_CHAT_ID ev) of
        (Some token, Some chat_id) \<Rightarrow>
          if token = [] \<or> chat_id = [] then (Inr (), emit (Print LSetCreds) w)
          else
            (case files w TelegramBotFile of
               None \<Rightarrow> (Inr (), emit (Print LNoBotFile) w)
             | Some c \<Rightarrow> send_pending x token chat_id resend_all c w)
      | _ \<Rightarrow> (Inr (), emit (Print LSetCreds) w))"

section \<open>Observations on entries and traces\<close>

definition is_pending :: "json \<Rightarrow> bool" where
  "is_pending e = (dict_get e ''telegram_sent'' JNull = Inr (JBool False))"

definition field :: "json \<Rightarrow> string \<Rightarrow> json" where
  "field e k = (case dict_get e k (JStr []) of Inl x \<Rightarrow> JNull | Inr v \<Rightarrow> v)"

definition delivered :: "json \<Rightarrow> event list \<Rightarrow> bool" where
  "delivered e t = list_ex (\<lambda>s. fst s = Message (field e ''keyword'') (field e ''url'') \<and> fst (snd s)) (sends t)"

definition mark_sent :: "json \<Rightarrow> json" where
  "mark_sent e = (case set_item e ''telegram_sent'' (JBool True) of Inl x \<Rightarrow> e | Inr e' \<Rightarrow> e')"

definition pass_step :: "event list \<Rightarrow> json \<Rightarrow> json \<Rightarrow> bool" where
  "pass_step t e e' = (e' = e \<or> (e' = mark_sent e \<and> delivered e t))"

text \<open>Every item of a result list is skipped by \<open>_save_activity\<close>: its link is empty
  or already among the seen URLs.\<close>

definition covered :: "hkey set \<Rightarrow> json list \<Rightarrow> bool" where
  "covered seen_urls items =
     list_all (\<lambda>r. case dict_get r ''link'' JNull of
                      Inl x \<Rightarrow> False
                    | Inr lnk \<Rightarrow> \<not> truthy lnk \<or> (case hash_key lnk of Inl x \<Rightarrow> False | Inr k \<Rightarrow> k \<in> seen_urls))
       items"

text \<open>\<open>seen_urls\<close> is the URL set of the document \<open>existing\<close>.\<close>

definition keys_of :: "json \<Rightarrow> hkey set \<Rightarrow> bool" where
  "keys_of existing seen_urls =
     (case py_iter existing of Inl x \<Rightarrow> False | Inr es \<Rightarrow> url_set es = Inr seen_urls)"

text \<open>The URL of an entry, when the entry is a dict whose \<open>url\<close> is a non-empty string;
  a list of entries that all have one; the URLs of a list; and the queue entry that the
  reconcile step builds from an entry.\<close>

definition url_str :: "json \<Rightarrow> string option" where
  "url_str e =
     (case e of
        JObj kvs \<Rightarrow> (case map_of kvs ''url'' of Some (JStr s) \<Rightarrow> if s = [] then None else Some s | _ \<Rightarrow> None)
      | _ \<Rightarrow> None)"

definition well_formed :: "json list \<Rightarrow> bool" where
  "well_formed es = list_all (\<lambda>e. url_str e \<noteq> None) es"

definition str_urls :: "json list \<Rightarrow> string set" where
  "str_urls es = set (List.map_filter url_str es)"

definition to_queue :: "bool \<Rightarrow> json \<Rightarrow> json" where
  "to_queue flag e =
     JObj [(''url'', field e ''url''), (''first_seen'', field e ''first_seen''),
           (''keyword'', field e ''keyword''), (''title'', field e ''title''),
           (''telegram_sent'', JBool flag)]"

text \<open>The \<open>Sent\<close> event of the delivery attempt for entry \<open>e\<close> when \<open>n\<close> calls were made before.\<close>

definition attempt :: "ext \<Rightarrow> string \<Rightarrow> string \<Rightarrow> nat \<Rightarrow> json \<Rightarrow> event" where
  "attempt x token chat_id n e =
     Sent (Message (field e ''keyword'') (field e ''url''))
       (fst (telegram_api x n (Message (field e ''keyword'') (field e ''url'')) token chat_id))
       (snd (telegram_api x n (Message (field e ''keyword'') (field e ''url'')) token chat_id))"

text \<open>The message the pass sends for an entry, whether the pass sends one for it, and
  the progress lines.\<close>

definition message_of :: "json \<Rightarrow> message" where
  "message_of e = Message (field e ''keyword'') (field e ''url'')"

definition has_url :: "json \<Rightarrow> bool" where
  "has_url e = truthy (field e ''url'')"

fun is_progress :: "line \<Rightarrow> bool" where
  "is_progress (LProgress i n k) = True"
| "is_progress _ = False"

text \<open>\<open>_sync_telegram_bot_and_send\<close> in its two halves: lines 73-111 build \<open>bot_list\<close>,
  lines 113-151 deliver and write it (lemma \<open>sync_eq\<close> below).\<close>

definition reconcile :: "json list \<Rightarrow> world \<Rightarrow> error + json list" where
  "reconcile new_activity_entries w =
     (let loaded = load_bot_list (files w TelegramBotFile) in
      case url_set loaded of
        Inl e \<Rightarrow> Inl e
      | Inr seen0 \<Rightarrow>
          (case (case files w ActivityFile of
                   Some c \<Rightarrow> if loaded = [] then backfill c seen0 loaded else Inr (seen0, loaded)
                 | None \<Rightarrow> Inr (seen0, loaded)) of
             Inl e \<Rightarrow> Inl e
           | Inr (seen1, filled) \<Rightarrow>
               (case add_entries False new_activity_entries seen1 filled of
                  Inl e \<Rightarrow> Inl e
                | Inr (seen2, bot_list) \<Rightarrow> Inr bot_list)))"

definition deliver :: "ext \<Rightarrow> env \<Rightarrow> json list \<Rightarrow> world \<Rightarrow> (error + unit) \<times> world" where
  "deliver x ev bot_list w =
     (case pending_refs bot_list 0 of
        Inl e \<Rightarrow> (Inl e, w)
      | Inr pending \<Rightarrow>
          if pending = [] then
            (Inr (), emit (Print LNothingToSend) (write_file TelegramBotFile (JArr bot_list) w))
          else
            (case (TELEGRAM_BOT_TOKEN ev, TELEGRAM_GROUP_CHAT_ID ev) of
               (Some token, Some chat_id) \<Rightarrow>
                 if token = [] \<or> chat_id = [] then
                   (Inr (), emit (Print LNoTelegramCreds) (write_file TelegramBotFile (JArr bot_list) w))
                 else
                   (case send_loop x token chat_id (length pending) (enumerate 1 pending)
                           (bot_list, 0, []) (emit (Print (LSending (length pending))) w) of
                      (Inl e, w1) \<Rightarrow> (Inl e, w1)
                    | (Inr (sent_list, sent_count, first_error), w1) \<Rightarrow>
                        (Inr (),
                         emit (Print (if sent_count \<noteq> 0 then LSent sent_count else LSendFailed first_error))
                           (write_file TelegramBotFile (JArr sent_list) w1)))
             | _ \<Rightarrow>
                 (Inr (), emit (Print LNoTelegramCreds) (write_file TelegramBotFile (JArr bot_list) w))))"

text \<open>The totals a trace announces before a pass.\<close>

fun totals :: "event list \<Rightarrow> nat list" where
  "totals [] = []"
| "totals (Print (LSending n) # es) = n # totals es"
| "totals (Print (LSendingPending n) # es) = n # totals es"
| "totals (_ # es) = totals es"

text \<open>The operations a user or scheduler can start, and what can follow a state: any
  number of operations, each with its own environment and collaborators.\<close>

datatype operation = RunKeywords "string list" int string | SendPending | ResendAll

fun perform :: "ext \<Rightarrow> env \<Rightarrow> operation \<Rightarrow> world \<Rightarrow> (error + unit) \<times> world" where
  "perform x ev (RunKeywords keywords results_per_keyword run_at) w =
     run_keywords_main x ev keywords results_per_keyword run_at w"
| "perform x ev SendPending w = send_telegram_pending_main x ev False w"
| "perform x ev ResendAll w = send_telegram_pending_main x ev True w"

inductive later :: "world \<Rightarrow> world \<Rightarrow> bool" where
  now: "later w w"
| after: "later w w1 \<Longrightarrow> perform x ev op w1 = (r, w2) \<Longrightarrow> later w w2"

text \<open>The notification queue as the scripts would load it.\<close>

definition queue :: "world \<Rightarrow> json list" where
  "queue w = load_bot_list (files w TelegramBotFile)"

text \<open>What an operation does to the queue: nothing (no write of the queue, no send, no
  announced total), or one pass over a list \<open>bl\<close> that extends the loaded queue (or is
  the loaded queue reset to unsent).\<close>

definition quiet_step :: "world \<Rightarrow> world \<Rightarrow> bool" where
  "quiet_step w w' \<longleftrightarrow>
     files w' TelegramBotFile = files w TelegramBotFile \<and>
     (\<exists>t. trace w' = trace w @ t \<and> sends t = [] \<and> totals t = [])"

definition pass_effect :: "json list \<Rightarrow> world \<Rightarrow> world \<Rightarrow> bool" where
  "pass_effect bl w w' \<longleftrightarrow>
     (\<exists>final t.
        files w' TelegramBotFile = Some (Json (JArr final)) \<and>
        length final = length bl \<and> (\<forall>j<length bl. pass_step t (bl ! j) (final ! j)) \<and>
        trace w' = trace w @ t \<and>
        (totals t = [] \<and> sends t = [] \<or>
         totals t = [length (filter is_pending bl)] \<and>
         map fst (sends t) = map message_of (filter has_url (filter is_pending bl))))"

definition base :: "bool \<Rightarrow> json list \<Rightarrow> json list \<Rightarrow> bool" where
  "base resend q bl = (if resend then mark_all_unsent q = Inr bl else (\<exists>more. bl = q @ more))"

definition effect :: "bool \<Rightarrow> world \<Rightarrow> world \<Rightarrow> bool" where
  "effect resend w w' \<longleftrightarrow> quiet_step w w' \<or> (\<exists>bl. base resend (queue w) bl \<and> pass_effect bl w w')"

text \<open>The states that complete operations reach from empty stores; the entries of the
  activity document; the URLs of a list of entries; result mappings made of search hits;
  and the invariant of the two stores.\<close>

inductive reachable :: "world \<Rightarrow> bool" where
  fresh: "files w = (\<lambda>p. None) \<Longrightarrow> reachable w"
| complete: "reachable w \<Longrightarrow> perform x ev op w = (Inr (), w') \<Longrightarrow> reachable w'"

definition activity :: "world \<Rightarrow> json list" where
  "activity w = (case files w ActivityFile of Some (Json (JArr es)) \<Rightarrow> es | _ \<Rightarrow> [])"

fun url_of :: "json \<Rightarrow> json option" where
  "url_of (JObj kvs) = map_of kvs ''url''"
| "url_of _ = None"

definition url_values :: "json list \<Rightarrow> json set" where
  "url_values es = set (List.map_filter url_of es)"

definition hits_only :: "(string \<times> json list) list \<Rightarrow> bool" where
  "hits_only rbk = list_all (\<lambda>kv. list_all (\<lambda>it. it \<in> range result_dict) (snd kv)) rbk"

definition stores_ok :: "world \<Rightarrow> bool" where
  "stores_ok w \<longleftrightarrow>
     (files w ActivityFile = None \<or> files w ActivityFile = Some (Json (JArr (activity w)))) \<and>
     (files w TelegramBotFile = None \<or> files w TelegramBotFile = Some (Json (JArr (queue w)))) \<and>
     well_formed (activity w) \<and> well_formed (queue w) \<and>
     str_urls (activity w) \<subseteq> str_urls (queue w)"

text \<open>A run of run\_keywords.py without any usable search credentials: the condition under
  which \<open>search_google\<close> finds no provider, the result mapping such a run builds, what
  it prints for one keyword, the runs already in the day's history document (when
  \<open>_save_history\<close> can read it), and whether \<open>_save_activity\<close> can read the activity
  document.\<close>

definition no_search_credentials :: "env \<Rightarrow> bool" where
  "no_search_credentials ev \<longleftrightarrow>
     \<not> truthy_str (SERPAPI_KEY ev) \<and>
     \<not> (truthy_str (GOOGLE_SEARCH_API_KEY ev) \<and> truthy_str (GOOGLE_SEARCH_ENGINE_ID ev))"

definition empty_results :: "string list \<Rightarrow> (string \<times> json list) list" where
  "empty_results keywords = fold (\<lambda>k. AList.update k []) keywords []"

definition error_report :: "string \<Rightarrow> event list" where
  "error_report k = [Print LRuleNL, Print (LKeyword k), Print LRule,
                     Print (LErrorFor k (ValueError no_google_credentials))]"

definition day_runs :: "world \<Rightarrow> string \<Rightarrow> json list option" where
  "day_runs w d =
     (case files w (HistoryFile d) of
        None \<Rightarrow> Some []
      | Some (Json (JObj kvs)) \<Rightarrow> (case map_of kvs ''runs'' of Some (JArr rs) \<Rightarrow> Some rs | _ \<Rightarrow> None)
      | _ \<Rightarrow> None)"

definition activity_loads :: "world \<Rightarrow> bool" where
  "activity_loads w \<longleftrightarrow>
     (case files w ActivityFile of
        None \<Rightarrow> True
      | Some (Json (JArr es)) \<Rightarrow> (case url_set es of Inr seen \<Rightarrow> True | Inl e \<Rightarrow> False)
      | _ \<Rightarrow> False)"


definition flipped :: "json list \<Rightarrow> json list \<Rightarrow> nat list" where
  "flipped start final =
     filter (\<lambda>j. is_pending (start ! j) \<and> \<not> is_pending (final ! j)) [0..<length start]"





section \<open>Concrete inputs\<close>

definition no_env :: env where
  "no_env = \<lparr>TELEGRAM_BOT_TOKEN = None, TELEGRAM_GROUP_CHAT_ID = None, SERPAPI_KEY = None,
     GOOGLE_SEARCH_API_KEY = None, GOOGLE_SEARCH_ENGINE_ID = None\<rparr>"

definition empty_world :: world where
  "empty_world = \<lparr>files = (\<lambda>p. None), trace = []\<rparr>"

definition quiet_ext :: ext where
  "quiet_ext = \<lparr>telegram_api = (\<lambda>n m t c. (True, [])),
     serpapi = (\<lambda>n k c a. Inr []),
     google_cse = (\<lambda>n k c a s l. Inr [])\<rparr>"

definition hit :: "string \<Rightarrow> result" where
  "hit u = \<lparr>link = u, title = ''Title'', snippet = ''Snippet'', display_link = ''example.org''\<rparr>"

definition queue_entry :: "string \<Rightarrow> string \<Rightarrow> bool \<Rightarrow> json" where
  "queue_entry u kw flag =
     JObj [(''url'', JStr u), (''first_seen'', JStr ''2024-01-01T00:00:00Z''), (''keyword'', JStr kw),
           (''title'', JStr ''Title''), (''telegram_sent'', JBool flag)]"

definition activity_entry :: "string \<Rightarrow> string \<Rightarrow> json" where
  "activity_entry u kw =
     JObj [(''url'', JStr u), (''first_seen'', JStr ''2024-01-01T00:00:00Z''), (''keyword'', JStr kw),
           (''title'', JStr ''Title'')]"

definition serp_env :: env where
  "serp_env = no_env\<lparr>SERPAPI_KEY := Some ''serp-key''\<rparr>"

definition telegram_env :: env where
  "telegram_env = no_env\<lparr>TELEGRAM_BOT_TOKEN := Some ''token'', TELEGRAM_GROUP_CHAT_ID := Some ''-100''\<rparr>"

definition one_hit_ext :: ext where
  "one_hit_ext = quiet_ext\<lparr>serpapi := (\<lambda>n k c a. Inr [hit ''https://a.example''])\<rparr>"

definition third_fails_ext :: ext where
  "third_fails_ext = quiet_ext\<lparr>telegram_api := (\<lambda>n m t c. if n = 2 then (False, ''boom'') else (True, []))\<rparr>"

definition stored :: "path \<Rightarrow> content \<Rightarrow> world \<Rightarrow> world" where
  "stored p c w = w\<lparr>files := (files w)(p \<mapsto> c)\<rparr>"

definition five_pending :: "json list" where
  "five_pending = [queue_entry ''https://1.example'' ''X'' False, queue_entry ''https://2.example'' ''X'' False,
     queue_entry ''https://3.example'' ''X'' False, queue_entry ''https://4.example'' ''X'' False,
     queue_entry ''https://5.example'' ''X'' False]"

definition growing_ext :: ext where
  "growing_ext = quiet_ext\<lparr>serpapi := (\<lambda>n k c a. if n = 0 then Inr [hit ''https://a.example'']
       else Inr [hit ''https://a.example'', hit ''https://c.example''])\<rparr>"

definition after_two_runs :: world where
  "after_two_runs =
     snd (perform growing_ext serp_env (RunKeywords [''X''] 2 ''2024-01-02T00:00:00Z'')
       (snd (perform growing_ext serp_env (RunKeywords [''X''] 2 ''2024-01-01T00:00:00Z'') empty_world)))"





section \<open>Properties of search\_google\<close>

text \<open>
  C10. For every keyword and every \<open>num_results\<close> that is zero or negative,
  \<open>search_google\<close> returns the empty list at once: whatever the credentials (also none at
  all) and whatever the optional arguments, it raises nothing and leaves the world as it
  was, so no provider is contacted.
\<close>

theorem search_google_nonpositive:
  assumes "num_results \<le> 0"
  shows "search_google x ev keyword num_results api_key search_engine_id lang use_serpapi serpapi_key w
           = (Inr [], w)"
  using assms by (simp add: search_google_def)

theorem search_google_nonpositive_witness:
  "(-3::int) \<le> 0 \<and>
   search_google quiet_ext no_env ''Monoreah'' (-3) None None ''lang_en'' None None empty_world
     = (Inr [], empty_world) \<and>
   searches (trace empty_world) = []"
  using search_google_nonpositive [of "-3" quiet_ext no_env "''Monoreah''" None None "''lang_en''" None None empty_world]
  by (simp add: empty_world_def)

section \<open>Effects and traces\<close>

lemma files_emit [simp]: "files (emit e w) = files w"
  by (simp add: emit_def)

lemma trace_emit [simp]: "trace (emit e w) = trace w @ [e]"
  by (simp add: emit_def)

lemma files_write_file [simp]: "files (write_file p v w) = (files w)(p \<mapsto> Json v)"
  by (simp add: write_file_def)

lemma trace_write_file [simp]: "trace (write_file p v w) = trace w @ [Wrote p v]"
  by (simp add: write_file_def)

lemma files_progress [simp]: "files (progress i n k w) = files w"
  by (simp add: progress_def)

lemma trace_progress:
  "trace (progress i n k w) = trace w @ (if i mod 10 = 0 \<or> i = n then [Print (LProgress i n k)] else [])"
  by (simp add: progress_def)

lemma sends_append [simp]: "sends (a @ b) = sends a @ sends b"
  by (induction a rule: sends.induct) simp_all

lemma prints_append [simp]: "prints (a @ b) = prints a @ prints b"
  by (induction a rule: prints.induct) simp_all

lemma writes_append [simp]: "writes (a @ b) = writes a @ writes b"
  by (induction a rule: writes.induct) simp_all

lemma searches_append [simp]: "searches (a @ b) = searches a @ searches b"
  by (induction a rule: searches.induct) simp_all

lemma update_idem: "AList.update k v (AList.update k v al) = AList.update k v al"
  by (induction al) auto

lemma mark_sent_idem [simp]: "mark_sent (mark_sent e) = mark_sent e"
  by (cases e) (simp_all add: mark_sent_def update_idem)

lemma field_mark_sent [simp]: "k \<noteq> ''telegram_sent'' \<Longrightarrow> field (mark_sent e) k = field e k"
  by (cases e) (simp_all add: mark_sent_def field_def update_conv')

lemma delivered_mark_sent [simp]: "delivered (mark_sent e) t = delivered e t"
  by (simp add: delivered_def)

lemma delivered_append: "delivered e t1 \<or> delivered e t2 \<Longrightarrow> delivered e (t1 @ t2)"
  by (auto simp: delivered_def list_ex_iff)

lemma pass_step_refl [simp]: "pass_step t e e"
  by (simp add: pass_step_def)

lemma pass_step_trans:
  "pass_step t1 e e1 \<Longrightarrow> pass_step t2 e1 e2 \<Longrightarrow> pass_step (t1 @ t2) e e2"
  by (auto simp: pass_step_def intro: delivered_append)

lemma pass_step_later: "pass_step t2 e e' \<Longrightarrow> pass_step (t1 @ t2) e e'"
  using pass_step_trans [of t1 e e t2 e'] by simp

lemma pass_step_sent:
  assumes "dict_get e ''url'' (JStr []) = Inr lnk" "dict_get e ''keyword'' (JStr []) = Inr kw"
    and "set_item e ''telegram_sent'' (JBool True) = Inr e'"
  shows "pass_step (Sent (Message kw lnk) True err # t) e e'"
  using assms by (simp add: pass_step_def mark_sent_def delivered_def field_def)

lemma send_loop_steps:
  "send_loop x tok chat n refs (bl, sc, fe) w = (Inr (bl', sc', fe'), w') \<Longrightarrow>
   length bl' = length bl \<and>
   (\<exists>t. trace w' = trace w @ t \<and> (\<forall>j<length bl. pass_step t (bl ! j) (bl' ! j)))"
proof (induction refs arbitrary: bl sc fe w)
  case Nil
  then show ?case by simp
next
  case (Cons r refs)
  obtain i j where r: "r = (i, j)" by (cases r)
  obtain lnk where lnk: "dict_get (bl ! j) ''url'' (JStr []) = Inr lnk"
    using Cons.prems by (auto simp: r split: sum.splits)
  show ?case
  proof (cases "truthy lnk")
    case False
    with Cons.prems lnk have "send_loop x tok chat n refs (bl, sc, fe) w = (Inr (bl', sc', fe'), w')"
      by (simp add: r)
    from Cons.IH [OF this] show ?thesis .
  next
    case True
    obtain kw where kw: "dict_get (bl ! j) ''keyword'' (JStr []) = Inr kw"
      using Cons.prems lnk True by (auto simp: r split: sum.splits)
    obtain ok err where api: "telegram_api x (length (sends (trace w))) (Message kw lnk) tok chat = (ok, err)"
      by (cases "telegram_api x (length (sends (trace w))) (Message kw lnk) tok chat")
    show ?thesis
    proof (cases ok)
      case False
      let ?w1 = "progress i n sc (emit (Sent (Message kw lnk) ok err) w)"
      from Cons.prems lnk True kw api False
      have "send_loop x tok chat n refs (bl, sc, if fe = [] then err else fe) ?w1 = (Inr (bl', sc', fe'), w')"
        by (simp add: r)
      from Cons.IH [OF this] obtain t where len: "length bl' = length bl"
        and t: "trace w' = trace ?w1 @ t" "\<forall>j<length bl. pass_step t (bl ! j) (bl' ! j)"
        by blast
      obtain t1 where t1: "trace ?w1 = trace w @ t1"
        by (simp add: trace_progress)
      have "\<forall>j<length bl. pass_step (t1 @ t) (bl ! j) (bl' ! j)"
        using t(2) pass_step_later by blast
      with len t(1) t1 show ?thesis by auto
    next
      case ok: True
      obtain e' where e': "set_item (bl ! j) ''telegram_sent'' (JBool True) = Inr e'"
        using Cons.prems lnk True kw api ok by (auto simp: r split: sum.splits)
      let ?w1 = "progress i n (Suc sc) (emit (Sent (Message kw lnk) ok err) w)"
      from Cons.prems lnk True kw api ok e'
      have "send_loop x tok chat n refs (bl[j := e'], Suc sc, fe) ?w1 = (Inr (bl', sc', fe'), w')"
        by (simp add: r)
      from Cons.IH [OF this] obtain t where len: "length bl' = length bl"
        and t: "trace w' = trace ?w1 @ t" "\<forall>k<length bl. pass_step t (bl[j := e'] ! k) (bl' ! k)"
        by auto
      obtain t1 where t1: "trace ?w1 = trace w @ Sent (Message kw lnk) True err # t1"
        by (simp add: trace_progress ok)
      have "pass_step ((Sent (Message kw lnk) True err # t1) @ t) (bl ! k) (bl' ! k)" if k: "k < length bl" for k
      proof (cases "k = j")
        case True
        have "pass_step (Sent (Message kw lnk) True err # t1) (bl ! j) e'"
          by (rule pass_step_sent [OF lnk kw e'])
        moreover have "pass_step t e' (bl' ! j)"
          using t(2) k True by auto
        ultimately show ?thesis
          unfolding True by (rule pass_step_trans)
      next
        case False
        then have "pass_step t (bl ! k) (bl' ! k)"
          using t(2) k by auto
        then show ?thesis by (rule pass_step_later)
      qed
      with len t(1) t1 show ?thesis by auto
    qed
  qed
qed

lemma pending_refs_set:
  "pending_refs bl n = Inr ps \<Longrightarrow> set ps = {n + k |k. k < length bl \<and> is_pending (bl ! k)}"
proof (induction bl arbitrary: n ps)
  case Nil
  then show ?case by simp
next
  case (Cons e es)
  from Cons.prems obtain v ps' where v: "dict_get e ''telegram_sent'' JNull = Inr v"
    and ps': "pending_refs es (Suc n) = Inr ps'"
    and ps: "ps = (if v = JBool False then n # ps' else ps')"
    by (auto split: sum.splits)
  have IH: "set ps' = {Suc n + k |k. k < length es \<and> is_pending (es ! k)}"
    by (rule Cons.IH [OF ps'])
  have split: "{n + k |k. k < length (e # es) \<and> is_pending ((e # es) ! k)}
      = (if is_pending e then {n} else {}) \<union> {Suc n + k |k. k < length es \<and> is_pending (es ! k)}"
  proof -
    have "\<And>k. k < length (e # es) \<and> is_pending ((e # es) ! k) \<longleftrightarrow>
        (k = 0 \<and> is_pending e) \<or> (\<exists>k'. k = Suc k' \<and> k' < length es \<and> is_pending (es ! k'))"
      by (case_tac k) auto
    then show ?thesis by (auto split: if_splits)
  qed
  show ?case
    unfolding split using ps IH v by (auto simp: is_pending_def)
qed

lemma pending_refs_length:
  "pending_refs bl n = Inr ps \<Longrightarrow> length ps = length (filter is_pending bl)"
  by (induction bl arbitrary: n ps) (auto split: sum.splits simp: is_pending_def)

lemma pending_refs_sorted:
  "pending_refs bl n = Inr ps \<Longrightarrow> sorted_wrt (<) ps \<and> (\<forall>j\<in>set ps. n \<le> j)"
proof (induction bl arbitrary: n ps)
  case Nil
  then show ?case by simp
next
  case (Cons e es)
  from Cons.prems obtain v ps' where ps': "pending_refs es (Suc n) = Inr ps'"
    and ps: "ps = (if v = JBool False then n # ps' else ps')"
    by (auto split: sum.splits)
  from Cons.IH [OF ps'] have "sorted_wrt (<) ps'" "\<forall>j\<in>set ps'. Suc n \<le> j" by auto
  then show ?case using ps by (auto simp: Suc_le_eq dest: Suc_leD)
qed

lemma pending_refs_dicts:
  "pending_refs bl n = Inr ps \<Longrightarrow> \<forall>e\<in>set bl. \<exists>kvs. e = JObj kvs"
proof (induction bl arbitrary: n ps)
  case Nil
  then show ?case by simp
next
  case (Cons e es)
  then show ?case by (cases e) (auto split: sum.splits)
qed


section \<open>Corrupt stored documents\<close>

text \<open>
  C7. An unparseable stored document should be treated as an empty store by every
  loader. The guarded read of telegram\_bot.json does so: with that file unparseable the
  run completes and writes the queue. The read of activity.json in \<open>_save_activity\<close> has
  no guard: with activity.json unparseable the run ends in a JSONDecodeError after the
  history file has been written, the activity document stays as it was, the URL found by
  the search is not saved and the queue is never written.
\<close>

theorem corrupt_activity_aborts_run:
  "fst (run_keywords_main one_hit_ext serp_env [''X''] 10 ''2024-01-01T00:00:00Z''
          (stored ActivityFile Garbage empty_world)) = Inl JSONDecodeError \<and>
   files (snd (run_keywords_main one_hit_ext serp_env [''X''] 10 ''2024-01-01T00:00:00Z''
          (stored ActivityFile Garbage empty_world))) ActivityFile = Some Garbage \<and>
   files (snd (run_keywords_main one_hit_ext serp_env [''X''] 10 ''2024-01-01T00:00:00Z''
          (stored ActivityFile Garbage empty_world))) TelegramBotFile = None \<and>
   map fst (writes (trace (snd (run_keywords_main one_hit_ext serp_env [''X''] 10 ''2024-01-01T00:00:00Z''
          (stored ActivityFile Garbage empty_world))))) = [HistoryFile ''2024-01-01''] \<and>
   fst (run_keywords_main one_hit_ext serp_env [''X''] 10 ''2024-01-01T00:00:00Z''
          (stored TelegramBotFile Garbage empty_world)) = Inr () \<and>
   files (snd (run_keywords_main one_hit_ext serp_env [''X''] 10 ''2024-01-01T00:00:00Z''
          (stored TelegramBotFile Garbage empty_world))) TelegramBotFile =
     Some (Json (JArr [queue_entry ''https://a.example'' ''X'' True]))"
  by code_simp

section \<open>The activity store\<close>

lemma url_set_snoc:
  "url_set xs = Inr s \<Longrightarrow> subscript e ''url'' = Inr u \<Longrightarrow> hash_key u = Inr k \<Longrightarrow>
   url_set (xs @ [e]) = Inr (insert k s)"
  by (induction xs arbitrary: s) (auto split: sum.splits)

lemma covered_mono: "covered s items \<Longrightarrow> s \<subseteq> s' \<Longrightarrow> covered s' items"
  by (induction items) (auto simp: covered_def split: sum.splits)

lemma record_items_inv:
  "record_items run_at kw items (seen_urls, existing, new_entries) = Inr (seen', existing', new') \<Longrightarrow>
   keys_of existing seen_urls \<Longrightarrow>
   keys_of existing' seen' \<and> seen_urls \<subseteq> seen' \<and> covered seen' items"
proof (induction items arbitrary: seen_urls existing new_entries)
  case Nil
  then show ?case by (simp add: covered_def)
next
  case (Cons r items)
  obtain lnk where lnk: "dict_get r ''link'' JNull = Inr lnk"
    using Cons.prems(1) by (auto split: sum.splits)
  show ?case
  proof (cases "truthy lnk")
    case False
    with Cons.prems lnk have "record_items run_at kw items (seen_urls, existing, new_entries) = Inr (seen', existing', new')"
      by simp
    from Cons.IH [OF this Cons.prems(2)] show ?thesis
      using lnk False by (simp add: covered_def)
  next
    case True
    obtain k where k: "hash_key lnk = Inr k"
      using Cons.prems(1) lnk True by (auto split: sum.splits)
    show ?thesis
    proof (cases "k \<in> seen_urls")
      case inn: True
      with Cons.prems lnk True k
      have "record_items run_at kw items (seen_urls, existing, new_entries) = Inr (seen', existing', new')"
        by simp
      from Cons.IH [OF this Cons.prems(2)] show ?thesis
        using lnk k inn by (auto simp: covered_def)
    next
      case False
      obtain t where t: "dict_get r ''title'' (JStr []) = Inr t"
        using Cons.prems(1) lnk True k False by (auto split: sum.splits)
      let ?entry = "JObj [(''url'', lnk), (''first_seen'', JStr run_at), (''keyword'', JStr kw), (''title'', t)]"
      obtain ex1 where ex1: "list_append existing ?entry = Inr ex1"
        using Cons.prems(1) lnk True k False t by (auto split: sum.splits)
      then obtain xs where xs: "existing = JArr xs" "ex1 = JArr (xs @ [?entry])"
        by (cases existing) auto
      have rec: "record_items run_at kw items (insert k seen_urls, ex1, new_entries @ [?entry]) = Inr (seen', existing', new')"
        using Cons.prems(1) lnk True k False t ex1 by simp
      have "keys_of ex1 (insert k seen_urls)"
        using Cons.prems(2) xs k by (simp add: keys_of_def url_set_snoc)
      from Cons.IH [OF rec this] show ?thesis
        using lnk k by (auto simp: covered_def)
    qed
  qed
qed

lemma record_items_noop:
  "covered seen_urls items \<Longrightarrow> record_items run_at kw items (seen_urls, existing, new_entries) = Inr (seen_urls, existing, new_entries)"
  by (induction items) (auto simp: covered_def split: sum.splits)

lemma record_all_inv:
  "record_all run_at rbk (seen_urls, existing, new_entries) = Inr (seen', existing', new') \<Longrightarrow>
   keys_of existing seen_urls \<Longrightarrow>
   keys_of existing' seen' \<and> seen_urls \<subseteq> seen' \<and> list_all (\<lambda>kv. covered seen' (snd kv)) rbk"
proof (induction rbk arbitrary: seen_urls existing new_entries)
  case Nil
  then show ?case by simp
next
  case (Cons kv rbk)
  obtain kw items where kv: "kv = (kw, items)" by (cases kv)
  from Cons.prems(1) obtain s1 e1 n1 where
    one: "record_items run_at kw items (seen_urls, existing, new_entries) = Inr (s1, e1, n1)"
    and rest: "record_all run_at rbk (s1, e1, n1) = Inr (seen', existing', new')"
    by (auto simp: kv split: sum.splits)
  from record_items_inv [OF one Cons.prems(2)]
  have a: "keys_of e1 s1" "seen_urls \<subseteq> s1" "covered s1 items" by auto
  from Cons.IH [OF rest a(1)]
  have b: "keys_of existing' seen'" "s1 \<subseteq> seen'" "list_all (\<lambda>kv. covered seen' (snd kv)) rbk" by auto
  show ?case
    using a b covered_mono [OF a(3) b(2)] by (auto simp: kv)
qed

lemma record_all_noop:
  "list_all (\<lambda>kv. covered seen_urls (snd kv)) rbk \<Longrightarrow>
   record_all run_at rbk (seen_urls, existing, new_entries) = Inr (seen_urls, existing, new_entries)"
  by (induction rbk) (auto simp: record_items_noop)

text \<open>
  C6. When \<open>_save_activity\<close> has returned for a mapping of results, a second call with the
  same mapping (at any later time) returns the empty list of new entries and writes the
  activity document back as it was, so the store's URLs are the same before and after
  the second call.
\<close>

theorem save_activity_twice:
  assumes "save_activity run_at results_by_keyword w = (Inr new_entries, w1)"
  shows "\<exists>w2. save_activity run_at' results_by_keyword w1 = (Inr [], w2) \<and>
              files w2 ActivityFile = files w1 ActivityFile"
proof -
  from assms obtain loaded es seen0 seen' existing where
    loaded: "(case files w ActivityFile of Some c \<Rightarrow> json_load c | None \<Rightarrow> Inr (JArr [])) = Inr loaded"
    and es: "py_iter loaded = Inr es" and seen0: "url_set es = Inr seen0"
    and rec: "record_all run_at results_by_keyword (seen0, loaded, []) = Inr (seen', existing, new_entries)"
    and w1: "w1 = write_file ActivityFile existing w"
    by (auto simp: save_activity_def split: sum.splits prod.splits)
  have "keys_of loaded seen0"
    using es seen0 by (simp add: keys_of_def)
  from record_all_inv [OF rec this]
  have k: "keys_of existing seen'" and c: "list_all (\<lambda>kv. covered seen' (snd kv)) results_by_keyword"
    by auto
  from k obtain es' where es': "py_iter existing = Inr es'" "url_set es' = Inr seen'"
    by (auto simp: keys_of_def split: sum.splits)
  have "save_activity run_at' results_by_keyword w1 = (Inr [], write_file ActivityFile existing w1)"
    using es' record_all_noop [OF c] by (simp add: save_activity_def w1)
  moreover have "files (write_file ActivityFile existing w1) ActivityFile = files w1 ActivityFile"
    by (simp add: w1)
  ultimately show ?thesis by blast
qed

theorem save_activity_twice_witness:
  "fst (save_activity ''2024-01-01T00:00:00Z'' [(''X'', [result_dict (hit ''https://a.example'')])] empty_world)
     = Inr [activity_entry ''https://a.example'' ''X''] \<and>
   (\<exists>w2. save_activity ''2024-01-02T00:00:00Z'' [(''X'', [result_dict (hit ''https://a.example'')])]
           (snd (save_activity ''2024-01-01T00:00:00Z'' [(''X'', [result_dict (hit ''https://a.example'')])] empty_world))
           = (Inr [], w2) \<and>
         files w2 ActivityFile =
         files (snd (save_activity ''2024-01-01T00:00:00Z'' [(''X'', [result_dict (hit ''https://a.example'')])] empty_world))
           ActivityFile)"
proof -
  have f: "fst (save_activity ''2024-01-01T00:00:00Z'' [(''X'', [result_dict (hit ''https://a.example'')])] empty_world)
     = Inr [activity_entry ''https://a.example'' ''X'']"
    by code_simp
  then have h: "save_activity ''2024-01-01T00:00:00Z'' [(''X'', [result_dict (hit ''https://a.example'')])] empty_world
     = (Inr [activity_entry ''https://a.example'' ''X''],
        snd (save_activity ''2024-01-01T00:00:00Z'' [(''X'', [result_dict (hit ''https://a.example'')])] empty_world))"
    by (simp add: prod_eq_iff)
  from save_activity_twice [OF h] f show ?thesis by simp
qed

section \<open>Reconciling the queue with the activity store\<close>

lemma str_urls_simps [simp]:
  "str_urls [] = {}"
  "str_urls (e # es) = (case url_str e of None \<Rightarrow> {} | Some s \<Rightarrow> {s}) \<union> str_urls es"
  "str_urls (xs @ ys) = str_urls xs \<union> str_urls ys"
  by (auto simp: str_urls_def List.map_filter_def split: option.splits)

lemma well_formed_simps [simp]:
  "well_formed []"
  "well_formed (e # es) = (url_str e \<noteq> None \<and> well_formed es)"
  "well_formed (xs @ ys) = (well_formed xs \<and> well_formed ys)"
  by (auto simp: well_formed_def)

lemma url_strD:
  "url_str e = Some s \<Longrightarrow> \<exists>kvs. e = JObj kvs \<and> map_of kvs ''url'' = Some (JStr s) \<and> s \<noteq> []"
  by (auto simp: url_str_def split: json.splits option.splits if_splits)

lemma url_str_to_queue [simp]: "url_str (to_queue flag e) = url_str e"
  by (auto simp: url_str_def to_queue_def field_def split: json.splits option.splits)

lemma url_set_well_formed:
  "well_formed es \<Longrightarrow> url_set es = Inr (HStr ` str_urls es)"
proof (induction es)
  case Nil
  then show ?case by simp
next
  case (Cons e es)
  then obtain s where s: "url_str e = Some s" by auto
  from url_strD [OF this] Cons show ?case
    by (auto simp: s)
qed

lemma add_entries_prefix:
  "add_entries flag es seen_urls bl = Inr (seen', bl') \<Longrightarrow> \<exists>new. bl' = bl @ new"
proof (induction es arbitrary: seen_urls bl)
  case Nil
  then show ?case by simp
next
  case (Cons e es)
  then show ?case
    by (cases e) (force split: if_splits sum.splits simp: Let_def)+
qed

lemma add_entries_well_formed:
  "add_entries flag es (HStr ` str_urls bl) bl = Inr (seen', bl') \<Longrightarrow> well_formed es \<Longrightarrow>
   well_formed bl \<Longrightarrow>
   well_formed bl' \<and> seen' = HStr ` str_urls bl' \<and> str_urls bl' = str_urls bl \<union> str_urls es"
proof (induction es arbitrary: bl)
  case Nil
  then show ?case by auto
next
  case (Cons e es)
  from Cons.prems(2) obtain s where s: "url_str e = Some s" by auto
  from url_strD [OF s] obtain kvs where e: "e = JObj kvs" "map_of kvs ''url'' = Some (JStr s)" "s \<noteq> []"
    by blast
  have wf: "well_formed es" using Cons.prems(2) by simp
  show ?case
  proof (cases "s \<in> str_urls bl")
    case True
    with Cons.prems(1) e have "add_entries flag es (HStr ` str_urls bl) bl = Inr (seen', bl')"
      by (simp add: image_iff)
    from Cons.IH [OF this wf Cons.prems(3)] True s show ?thesis by auto
  next
    case False
    let ?q = "to_queue flag e"
    have key: "insert (HStr s) (HStr ` str_urls bl) = HStr ` str_urls (bl @ [?q])"
      using s by simp
    from Cons.prems(1) e False
    have "add_entries flag es (insert (HStr s) (HStr ` str_urls bl)) (bl @ [?q]) = Inr (seen', bl')"
      by (auto simp: image_iff to_queue_def field_def)
    then have run: "add_entries flag es (HStr ` str_urls (bl @ [?q])) (bl @ [?q]) = Inr (seen', bl')"
      unfolding key .
    have wfq: "well_formed (bl @ [?q])"
      using Cons.prems(3) s by simp
    from Cons.IH [OF run wf wfq]
    have "well_formed bl'" "seen' = HStr ` str_urls bl'" "str_urls bl' = str_urls (bl @ [?q]) \<union> str_urls es"
      by auto
    then show ?thesis using s by auto
  qed
qed

lemma add_entries_fresh:
  "well_formed es \<Longrightarrow> distinct (map url_str es) \<Longrightarrow> HStr ` str_urls es \<inter> seen_urls = {} \<Longrightarrow>
   add_entries flag es seen_urls bl = Inr (seen_urls \<union> HStr ` str_urls es, bl @ map (to_queue flag) es)"
proof (induction es arbitrary: seen_urls bl)
  case Nil
  then show ?case by simp
next
  case (Cons e es)
  from Cons.prems(1) obtain s where s: "url_str e = Some s" by auto
  from url_strD [OF s] obtain kvs where e: "e = JObj kvs" "map_of kvs ''url'' = Some (JStr s)" "s \<noteq> []"
    by blast
  have notin: "HStr s \<notin> seen_urls" using Cons.prems(3) s by auto
  have "s \<notin> str_urls es"
    using Cons.prems(2) s by (auto simp: str_urls_def List.map_filter_def image_iff)
  then have disj: "HStr ` str_urls es \<inter> insert (HStr s) seen_urls = {}"
    using Cons.prems(3) by auto
  have "add_entries flag es (insert (HStr s) seen_urls) (bl @ [to_queue flag e])
      = Inr (insert (HStr s) seen_urls \<union> HStr ` str_urls es, (bl @ [to_queue flag e]) @ map (to_queue flag) es)"
    using Cons.IH [OF _ _ disj] Cons.prems by simp
  then show ?case
    using e notin s by (simp add: to_queue_def field_def)
qed


lemma pending_refs_none:
  "\<forall>e\<in>set bl. (\<exists>kvs. e = JObj kvs) \<and> \<not> is_pending e \<Longrightarrow> pending_refs bl n = Inr []"
  by (induction bl arbitrary: n) (auto simp: is_pending_def)

lemma to_queue_not_pending [simp]: "\<not> is_pending (to_queue True e)"
  by (simp add: to_queue_def is_pending_def)

text \<open>
  C5. When the loaded queue is empty (the file is absent, unparseable or an empty list)
  and the activity store holds \<open>N\<close> entries, each a dict with a non-empty string URL of
  its own, one reconcile pass with no new entries completes, writes a queue of exactly
  those \<open>N\<close> URLs, each marked \<open>telegram_sent: true\<close>, and makes no delivery attempt.
\<close>

theorem backfill_marks_sent:
  assumes "load_bot_list (files w TelegramBotFile) = []"
    and "files w ActivityFile = Some (Json (JArr acts))"
    and "well_formed acts" and "distinct (map url_str acts)"
  shows "\<exists>w'. sync_telegram_bot_and_send x ev [] w = (Inr (), w') \<and>
           files w' TelegramBotFile = Some (Json (JArr (map (to_queue True) acts))) \<and>
           length (map (to_queue True) acts) = length acts \<and>
           map url_str (map (to_queue True) acts) = map url_str acts \<and>
           sends (trace w') = sends (trace w)"
proof -
  have fill: "backfill (Json (JArr acts)) {} [] = Inr (HStr ` str_urls acts, map (to_queue True) acts)"
    using add_entries_fresh [OF assms(3) assms(4), of "{}" True "[]"] by (simp add: backfill_def)
  have pend: "pending_refs (map (to_queue True) acts) 0 = Inr []"
    by (rule pending_refs_none) (auto simp: to_queue_def is_pending_def)
  have "sync_telegram_bot_and_send x ev [] w =
      (Inr (), emit (Print LNothingToSend) (write_file TelegramBotFile (JArr (map (to_queue True) acts)) w))"
    using assms(1,2) fill pend by (simp add: sync_telegram_bot_and_send_def)
  then show ?thesis by simp
qed

theorem backfill_marks_sent_witness:
  "load_bot_list (files (stored ActivityFile (Json (JArr [activity_entry ''https://a.example'' ''X'',
       activity_entry ''https://b.example'' ''Y''])) empty_world) TelegramBotFile) = [] \<and>
   well_formed [activity_entry ''https://a.example'' ''X'', activity_entry ''https://b.example'' ''Y''] \<and>
   distinct (map url_str [activity_entry ''https://a.example'' ''X'', activity_entry ''https://b.example'' ''Y'']) \<and>
   (\<exists>w'. sync_telegram_bot_and_send quiet_ext telegram_env []
            (stored ActivityFile (Json (JArr [activity_entry ''https://a.example'' ''X'',
               activity_entry ''https://b.example'' ''Y''])) empty_world) = (Inr (), w') \<and>
         files w' TelegramBotFile =
           Some (Json (JArr [queue_entry ''https://a.example'' ''X'' True, queue_entry ''https://b.example'' ''Y'' True])) \<and>
         sends (trace w') = [])"
proof -
  let ?acts = "[activity_entry ''https://a.example'' ''X'', activity_entry ''https://b.example'' ''Y'']"
  let ?w = "stored ActivityFile (Json (JArr ?acts)) empty_world"
  have a: "load_bot_list (files ?w TelegramBotFile) = []"
    by (simp add: stored_def empty_world_def load_bot_list_def)
  have b: "files ?w ActivityFile = Some (Json (JArr ?acts))"
    by (simp add: stored_def)
  have c: "well_formed ?acts"
    by (simp add: activity_entry_def url_str_def)
  have d: "distinct (map url_str ?acts)"
    by (simp add: activity_entry_def url_str_def)
  have e: "map (to_queue True) ?acts = [queue_entry ''https://a.example'' ''X'' True, queue_entry ''https://b.example'' ''Y'' True]"
    by (simp add: to_queue_def activity_entry_def queue_entry_def field_def)
  have f: "sends (trace ?w) = []"
    by (simp add: stored_def empty_world_def)
  from backfill_marks_sent [OF a b c d, of quiet_ext telegram_env]
  have g: "\<exists>w'. sync_telegram_bot_and_send quiet_ext telegram_env [] ?w = (Inr (), w') \<and>
         files w' TelegramBotFile =
           Some (Json (JArr [queue_entry ''https://a.example'' ''X'' True, queue_entry ''https://b.example'' ''Y'' True])) \<and>
         sends (trace w') = []"
    unfolding e f by blast
  show ?thesis
    using a c d g by blast
qed

section \<open>The delivery pass\<close>

lemma send_loop_step:
  assumes "bl ! j = JObj kvs" and "truthy (field (bl ! j) ''url'')"
    and "telegram_api x (length (sends (trace w))) (Message (field (bl ! j) ''keyword'') (field (bl ! j) ''url'')) tok chat = (ok, err)"
  shows "send_loop x tok chat n ((i, j) # rest) (bl, sc, fe) w =
     send_loop x tok chat n rest
       (if ok then (bl[j := mark_sent (bl ! j)], Suc sc, fe) else (bl, sc, if fe = [] then err else fe))
       (progress i n (if ok then Suc sc else sc)
          (emit (Sent (Message (field (bl ! j) ''keyword'') (field (bl ! j) ''url'')) ok err) w))"
  using assms by (simp add: field_def mark_sent_def)

lemma send_loop_skip:
  assumes "bl ! j = JObj kvs" and "\<not> truthy (field (bl ! j) ''url'')"
  shows "send_loop x tok chat n ((i, j) # rest) (bl, sc, fe) w = send_loop x tok chat n rest (bl, sc, fe) w"
  using assms by (simp add: field_def)

lemma is_pending_dict: "is_pending e \<Longrightarrow> \<exists>kvs. e = JObj kvs"
  by (cases e) (simp_all add: is_pending_def)

lemma five_loop:
  assumes five: "pending_refs bl 0 = Inr [a, b, c, d, e]"
    and urls: "list_all (\<lambda>j. truthy (field (bl ! j) ''url'')) [a, b, c, d, e]"
    and n: "length (sends (trace w)) = n"
    and ok: "list_all (\<lambda>k. \<forall>m. fst (telegram_api x (n + k) m token chat_id)) [0, 1, 3, 4]"
    and fail: "\<forall>m. telegram_api x (n + 2) m token chat_id = (False, err)"
  shows "send_loop x token chat_id 5 (enumerate 1 [a, b, c, d, e]) (bl, 0, []) w =
           (Inr (bl[a := mark_sent (bl ! a), b := mark_sent (bl ! b), d := mark_sent (bl ! d), e := mark_sent (bl ! e)], 4, err),
            w\<lparr>trace := trace w @ [attempt x token chat_id n (bl ! a), attempt x token chat_id (n + 1) (bl ! b),
               attempt x token chat_id (n + 2) (bl ! c), attempt x token chat_id (n + 3) (bl ! d),
               attempt x token chat_id (n + 4) (bl ! e), Print (LProgress 5 5 4)]\<rparr>)"
proof -
  from pending_refs_set [OF five] have mem: "\<And>j. j \<in> {a, b, c, d, e} \<Longrightarrow> j < length bl \<and> is_pending (bl ! j)"
    by auto
  from pending_refs_sorted [OF five] have ord: "a < b" "b < c" "c < d" "d < e"
    by auto
  obtain ka kb kc kd ke where dicts: "bl ! a = JObj ka" "bl ! b = JObj kb" "bl ! c = JObj kc" "bl ! d = JObj kd" "bl ! e = JObj ke"
    using mem is_pending_dict by (metis insertCI)
  let ?m = "\<lambda>j. Message (field (bl ! j) ''keyword'') (field (bl ! j) ''url'')"
  have eqs: "n + 1 = Suc n" "n + 2 = Suc (Suc n)" "n + 3 = Suc (Suc (Suc n))" "n + 4 = Suc (Suc (Suc (Suc n)))"
    by simp_all
  have oks: "fst (telegram_api x n (?m a) token chat_id)" "fst (telegram_api x (n + 1) (?m b) token chat_id)"
      "fst (telegram_api x (n + 3) (?m d) token chat_id)" "fst (telegram_api x (n + 4) (?m e) token chat_id)"
    using ok by auto
  have ec: "telegram_api x (n + 2) (?m c) token chat_id = (False, err)"
    using fail by simp
  show ?thesis
    using dicts urls oks ec ord n unfolding eqs
    by (simp add: field_def mark_sent_def progress_def emit_def attempt_def split_beta)
qed

text \<open>
  C3 (as amended). In a delivery pass over a queue with five pending entries, all with a
  URL, where the third send fails and the other four succeed, the pass attempts all five
  entries in order (the fourth and fifth after the failure), ends with \<open>sent_count = 4\<close>
  and \<open>first_error\<close> equal to the third send's error, and writes the queue once, after the
  last send, with the four delivered entries marked sent and the third as it was. The
  error stays in the local variable: since \<open>sent_count\<close> is not zero the pass prints only
  the success line, and the written document holds no error. This holds for the pass of
  send\_telegram\_pending.py and, when the queue loads, for the pass of
  \<open>_sync_telegram_bot_and_send\<close>.
\<close>

theorem partial_failure_containment:
  assumes creds: "TELEGRAM_BOT_TOKEN ev = Some token" "token \<noteq> []"
      "TELEGRAM_GROUP_CHAT_ID ev = Some chat_id" "chat_id \<noteq> []"
    and queue: "files w TelegramBotFile = Some (Json (JArr bl))"
    and five: "pending_refs bl 0 = Inr [a, b, c, d, e]"
    and urls: "list_all (\<lambda>j. truthy (field (bl ! j) ''url'')) [a, b, c, d, e]"
    and n: "length (sends (trace w)) = n"
    and ok: "list_all (\<lambda>k. \<forall>m. fst (telegram_api x (n + k) m token chat_id)) [0, 1, 3, 4]"
    and fail: "\<forall>m. telegram_api x (n + 2) m token chat_id = (False, err)"
  shows "\<exists>t bl'.
      bl' = bl[a := mark_sent (bl ! a), b := mark_sent (bl ! b), d := mark_sent (bl ! d), e := mark_sent (bl ! e)] \<and>
      t = [attempt x token chat_id n (bl ! a), attempt x token chat_id (n + 1) (bl ! b),
           attempt x token chat_id (n + 2) (bl ! c), attempt x token chat_id (n + 3) (bl ! d),
           attempt x token chat_id (n + 4) (bl ! e), Print (LProgress 5 5 4)] \<and>
      map (\<lambda>s. fst (snd s)) (sends t) = [True, True, False, True, True] \<and>
      send_loop x token chat_id 5 (enumerate 1 [a, b, c, d, e]) (bl, 0, []) w = (Inr (bl', 4, err), w\<lparr>trace := trace w @ t\<rparr>) \<and>
      send_telegram_pending_main x ev False w =
        (Inr (), w\<lparr>files := (files w)(TelegramBotFile \<mapsto> Json (JArr bl')),
                    trace := trace w @ Print (LSendingPending 5) # t @ [Wrote TelegramBotFile (JArr bl'), Print (LDone 4 5)]\<rparr>) \<and>
      (\<forall>s. url_set bl = Inr s \<longrightarrow>
         sync_telegram_bot_and_send x ev [] w =
           (Inr (), w\<lparr>files := (files w)(TelegramBotFile \<mapsto> Json (JArr bl')),
                       trace := trace w @ Print (LSending 5) # t @ [Wrote TelegramBotFile (JArr bl'), Print (LSent 4)]\<rparr>))"
proof -
  let ?bl' = "bl[a := mark_sent (bl ! a), b := mark_sent (bl ! b), d := mark_sent (bl ! d), e := mark_sent (bl ! e)]"
  let ?t = "[attempt x token chat_id n (bl ! a), attempt x token chat_id (n + 1) (bl ! b),
           attempt x token chat_id (n + 2) (bl ! c), attempt x token chat_id (n + 3) (bl ! d),
           attempt x token chat_id (n + 4) (bl ! e), Print (LProgress 5 5 4)]"
  have loop: "send_loop x token chat_id 5 (enumerate 1 [a, b, c, d, e]) (bl, 0, []) w0 =
       (Inr (?bl', 4, err), w0\<lparr>trace := trace w0 @ ?t\<rparr>)" if "length (sends (trace w0)) = n" for w0
    by (rule five_loop [OF five urls that ok fail])
  have outcomes: "map (\<lambda>s. fst (snd s)) (sends ?t) = [True, True, False, True, True]"
    using ok fail by (simp add: attempt_def)
  have ne: "bl \<noteq> []" using five by auto
  have L1: "send_loop x token chat_id (length [a, b, c, d, e]) (enumerate 1 [a, b, c, d, e]) (bl, 0, [])
        (emit (Print l) w) = (Inr (?bl', 4, err), emit (Print l) w\<lparr>trace := trace (emit (Print l) w) @ ?t\<rparr>)" for l
  proof -
    have len: "length [a, b, c, d, e] = 5" by simp
    show ?thesis unfolding len by (rule loop) (simp add: n)
  qed
  have main: "send_telegram_pending_main x ev False w =
        (Inr (), w\<lparr>files := (files w)(TelegramBotFile \<mapsto> Json (JArr ?bl')),
                    trace := trace w @ Print (LSendingPending 5) # ?t @ [Wrote TelegramBotFile (JArr ?bl'), Print (LDone 4 5)]\<rparr>)"
  proof -
    have "send_pending x token chat_id False (Json (JArr bl)) w =
        (Inr (), emit (Print (LDone 4 (length [a, b, c, d, e])))
           (write_file TelegramBotFile (JArr ?bl')
              (emit (Print (LSendingPending (length [a, b, c, d, e]))) w
                 \<lparr>trace := trace (emit (Print (LSendingPending (length [a, b, c, d, e]))) w) @ ?t\<rparr>)))"
      unfolding send_pending_def using five L1 [of "LSendingPending (length [a, b, c, d, e])"]
      by (simp del: send_loop.simps enumerate_simps list.size)
    then show ?thesis
      using creds queue by (simp add: send_telegram_pending_main_def emit_def write_file_def)
  qed
  have sync: "sync_telegram_bot_and_send x ev [] w =
           (Inr (), w\<lparr>files := (files w)(TelegramBotFile \<mapsto> Json (JArr ?bl')),
                       trace := trace w @ Print (LSending 5) # ?t @ [Wrote TelegramBotFile (JArr ?bl'), Print (LSent 4)]\<rparr>)"
    if s: "url_set bl = Inr s" for s
  proof -
    have fill: "(case files w ActivityFile of
             Some c \<Rightarrow> if bl = [] then backfill c s bl else Inr (s, bl)
           | None \<Rightarrow> Inr (s, bl)) = Inr (s, bl)"
      using ne by (simp split: option.splits)
    have "sync_telegram_bot_and_send x ev [] w =
        (Inr (), emit (Print (LSent 4))
           (write_file TelegramBotFile (JArr ?bl')
              (emit (Print (LSending (length [a, b, c, d, e]))) w
                 \<lparr>trace := trace (emit (Print (LSending (length [a, b, c, d, e]))) w) @ ?t\<rparr>)))"
      unfolding sync_telegram_bot_and_send_def
      using creds queue five s fill L1 [of "LSending (length [a, b, c, d, e])"]
      by (simp add: load_bot_list_def del: send_loop.simps enumerate_simps list.size)
    then show ?thesis
      by (simp add: emit_def write_file_def)
  qed
  show ?thesis
    using loop [OF n] outcomes main sync by (intro exI [of _ ?t] exI [of _ ?bl']) simp
qed


theorem partial_failure_containment_witness:
  "pending_refs five_pending 0 = Inr [0, 1, 2, 3, 4] \<and>
   list_all (\<lambda>j. truthy (field (five_pending ! j) ''url'')) [0, 1, 2, 3, 4] \<and>
   list_all (\<lambda>k. \<forall>m. fst (telegram_api third_fails_ext (0 + k) m ''token'' ''-100'')) [0, 1, 3, 4] \<and>
   (\<forall>m. telegram_api third_fails_ext (0 + 2) m ''token'' ''-100'' = (False, ''boom'')) \<and>
   fst (send_loop third_fails_ext ''token'' ''-100'' 5 (enumerate 1 [0, 1, 2, 3, 4]) (five_pending, 0, [])
          (stored TelegramBotFile (Json (JArr five_pending)) empty_world))
     = Inr (five_pending[0 := mark_sent (five_pending ! 0), 1 := mark_sent (five_pending ! 1),
                         3 := mark_sent (five_pending ! 3), 4 := mark_sent (five_pending ! 4)], 4, ''boom'') \<and>
   prints (trace (snd (send_telegram_pending_main third_fails_ext telegram_env False
          (stored TelegramBotFile (Json (JArr five_pending)) empty_world))))
     = [LSendingPending 5, LProgress 5 5 4, LDone 4 5]"
proof -
  let ?w = "stored TelegramBotFile (Json (JArr five_pending)) empty_world"
  have creds: "TELEGRAM_BOT_TOKEN telegram_env = Some ''token''" "''token'' \<noteq> []"
      "TELEGRAM_GROUP_CHAT_ID telegram_env = Some ''-100''" "''-100'' \<noteq> []"
    by (simp_all add: telegram_env_def no_env_def)
  have queue: "files ?w TelegramBotFile = Some (Json (JArr five_pending))"
    by (simp add: stored_def)
  have five: "pending_refs five_pending 0 = Inr [0, 1, 2, 3, 4]"
    by (simp add: five_pending_def queue_entry_def)
  have urls: "list_all (\<lambda>j. truthy (field (five_pending ! j) ''url'')) [0, 1, 2, 3, 4]"
    by (simp add: five_pending_def queue_entry_def field_def)
  have n: "length (sends (trace ?w)) = 0"
    by (simp add: stored_def empty_world_def)
  have ok: "list_all (\<lambda>k. \<forall>m. fst (telegram_api third_fails_ext (0 + k) m ''token'' ''-100'')) [0, 1, 3, 4]"
    by (simp add: third_fails_ext_def quiet_ext_def)
  have fail: "\<forall>m. telegram_api third_fails_ext (0 + 2) m ''token'' ''-100'' = (False, ''boom'')"
    by (simp add: third_fails_ext_def quiet_ext_def)
  from partial_failure_containment [OF creds queue five urls n ok fail]
  obtain t bl' where
    bl': "bl' = five_pending[0 := mark_sent (five_pending ! 0), 1 := mark_sent (five_pending ! 1),
                         3 := mark_sent (five_pending ! 3), 4 := mark_sent (five_pending ! 4)]"
    and t: "t = [attempt third_fails_ext ''token'' ''-100'' 0 (five_pending ! 0),
           attempt third_fails_ext ''token'' ''-100'' (0 + 1) (five_pending ! 1),
           attempt third_fails_ext ''token'' ''-100'' (0 + 2) (five_pending ! 2),
           attempt third_fails_ext ''token'' ''-100'' (0 + 3) (five_pending ! 3),
           attempt third_fails_ext ''token'' ''-100'' (0 + 4) (five_pending ! 4), Print (LProgress 5 5 4)]"
    and loop: "send_loop third_fails_ext ''token'' ''-100'' 5 (enumerate 1 [0, 1, 2, 3, 4]) (five_pending, 0, []) ?w
       = (Inr (bl', 4, ''boom''), ?w\<lparr>trace := trace ?w @ t\<rparr>)"
    and main: "send_telegram_pending_main third_fails_ext telegram_env False ?w =
        (Inr (), ?w\<lparr>files := (files ?w)(TelegramBotFile \<mapsto> Json (JArr bl')),
                    trace := trace ?w @ Print (LSendingPending 5) # t @ [Wrote TelegramBotFile (JArr bl'), Print (LDone 4 5)]\<rparr>)"
    by blast
  have "prints (trace (snd (send_telegram_pending_main third_fails_ext telegram_env False ?w)))
     = [LSendingPending 5, LProgress 5 5 4, LDone 4 5]"
    unfolding main by (simp add: t attempt_def stored_def empty_world_def)
  moreover have "fst (send_loop third_fails_ext ''token'' ''-100'' 5 (enumerate 1 [0, 1, 2, 3, 4]) (five_pending, 0, []) ?w)
     = Inr (bl', 4, ''boom'')"
    unfolding loop by simp
  ultimately show ?thesis
    using five urls ok fail unfolding bl' by blast
qed

text \<open>
  The specification as written says that the third entry's error is reported or persisted
  with the outcome. On five pending entries whose third send fails with \<open>boom\<close>, both
  passes print the sending line, the progress line and the success line, and write the
  queue: the error appears nowhere.
\<close>

theorem first_error_not_reported:
  "map (\<lambda>s. snd s) (sends (trace (snd (sync_telegram_bot_and_send third_fails_ext telegram_env []
          (stored TelegramBotFile (Json (JArr five_pending)) empty_world)))))
     = [(True, []), (True, []), (False, ''boom''), (True, []), (True, [])] \<and>
   prints (trace (snd (sync_telegram_bot_and_send third_fails_ext telegram_env []
          (stored TelegramBotFile (Json (JArr five_pending)) empty_world))))
     = [LSending 5, LProgress 5 5 4, LSent 4] \<and>
   writes (trace (snd (sync_telegram_bot_and_send third_fails_ext telegram_env []
          (stored TelegramBotFile (Json (JArr five_pending)) empty_world))))
     = [(TelegramBotFile, JArr [queue_entry ''https://1.example'' ''X'' True, queue_entry ''https://2.example'' ''X'' True,
          queue_entry ''https://3.example'' ''X'' False, queue_entry ''https://4.example'' ''X'' True,
          queue_entry ''https://5.example'' ''X'' True])] \<and>
   prints (trace (snd (send_telegram_pending_main third_fails_ext telegram_env False
          (stored TelegramBotFile (Json (JArr five_pending)) empty_world))))
     = [LSendingPending 5, LProgress 5 5 4, LDone 4 5] \<and>
   writes (trace (snd (send_telegram_pending_main third_fails_ext telegram_env False
          (stored TelegramBotFile (Json (JArr five_pending)) empty_world))))
     = [(TelegramBotFile, JArr [queue_entry ''https://1.example'' ''X'' True, queue_entry ''https://2.example'' ''X'' True,
          queue_entry ''https://3.example'' ''X'' False, queue_entry ''https://4.example'' ''X'' True,
          queue_entry ''https://5.example'' ''X'' True])]"
  by code_simp

section \<open>The delivery pass in general\<close>

lemma message_of_mark_sent [simp]: "message_of (mark_sent e) = message_of e"
  by (simp add: message_of_def)

lemma has_url_mark_sent [simp]: "has_url (mark_sent e) = has_url e"
  by (simp add: has_url_def)

lemma mark_sent_dict: "e = JObj kvs \<Longrightarrow> \<exists>kvs'. mark_sent e = JObj kvs'"
  by (simp add: mark_sent_def)

lemma message_of_update [simp]:
  "message_of (bl[j := mark_sent (bl ! j)] ! k) = message_of (bl ! k)"
  by (cases "j < length bl"; cases "k = j"; simp add: list_update_beyond)

lemma has_url_update [simp]:
  "has_url (bl[j := mark_sent (bl ! j)] ! k) = has_url (bl ! k)"
  by (cases "j < length bl"; cases "k = j"; simp add: list_update_beyond)

lemma dict_update:
  "\<exists>kvs. bl ! k = JObj kvs \<Longrightarrow> \<exists>kvs. bl[j := mark_sent (bl ! j)] ! k = JObj kvs"
  by (cases "j < length bl"; cases "k = j"; auto simp: mark_sent_def list_update_beyond)

lemma send_loop_total:
  "\<forall>r\<in>set refs. \<exists>kvs. bl ! snd r = JObj kvs \<Longrightarrow>
   \<exists>bl' sc' fe' w'. send_loop x tok chat n refs (bl, sc, fe) w = (Inr (bl', sc', fe'), w')"
proof (induction refs arbitrary: bl sc fe w)
  case Nil
  then show ?case by simp
next
  case (Cons r refs)
  obtain i j where r: "r = (i, j)" by (cases r)
  from Cons.prems obtain kvs where kvs: "bl ! j = JObj kvs" by (auto simp: r)
  have rest: "\<forall>r\<in>set refs. \<exists>kvs. bl ! snd r = JObj kvs" using Cons.prems by simp
  show ?case
  proof (cases "has_url (bl ! j)")
    case False
    then have "\<not> truthy (field (bl ! j) ''url'')" by (simp add: has_url_def)
    from send_loop_skip [OF kvs this] show ?thesis
      unfolding r using Cons.IH [OF rest] by metis
  next
    case True
    obtain ok err where api: "telegram_api x (length (sends (trace w))) (Message (field (bl ! j) ''keyword'') (field (bl ! j) ''url'')) tok chat = (ok, err)"
      by (cases "telegram_api x (length (sends (trace w))) (Message (field (bl ! j) ''keyword'') (field (bl ! j) ''url'')) tok chat")
    have rest': "\<forall>r\<in>set refs. \<exists>kvs. bl[j := mark_sent (bl ! j)] ! snd r = JObj kvs"
      using rest dict_update by blast
    show ?thesis
      unfolding r send_loop_step [OF kvs True [unfolded has_url_def] api]
      using Cons.IH [OF rest] Cons.IH [OF rest'] by (cases ok) simp_all
  qed
qed

lemma send_loop_sends:
  "send_loop x tok chat n refs (bl, sc, fe) w = (Inr (bl', sc', fe'), w') \<Longrightarrow>
   \<exists>t. trace w' = trace w @ t \<and> files w' = files w \<and> writes t = [] \<and> searches t = [] \<and>
       list_all is_progress (prints t) \<and>
       map fst (sends t) = map (\<lambda>r. message_of (bl ! snd r)) (filter (\<lambda>r. has_url (bl ! snd r)) refs) \<and>
       sc' = sc + length (filter (\<lambda>s. fst (snd s)) (sends t))"
proof (induction refs arbitrary: bl sc fe w)
  case Nil
  then show ?case by simp
next
  case (Cons r refs)
  obtain i j where r: "r = (i, j)" by (cases r)
  obtain kvs where kvs: "bl ! j = JObj kvs"
    using Cons.prems by (cases "bl ! j") (auto simp: r)
  show ?case
  proof (cases "has_url (bl ! j)")
    case False
    then have "\<not> truthy (field (bl ! j) ''url'')" by (simp add: has_url_def)
    from send_loop_skip [OF kvs this] Cons.prems
    have "send_loop x tok chat n refs (bl, sc, fe) w = (Inr (bl', sc', fe'), w')"
      unfolding r by metis
    from Cons.IH [OF this] show ?thesis using False by (simp add: r)
  next
    case True
    let ?m = "Message (field (bl ! j) ''keyword'') (field (bl ! j) ''url'')"
    obtain ok err where api: "telegram_api x (length (sends (trace w))) ?m tok chat = (ok, err)"
      by (cases "telegram_api x (length (sends (trace w))) ?m tok chat")
    let ?w1 = "progress i n (if ok then Suc sc else sc) (emit (Sent ?m ok err) w)"
    let ?bl1 = "if ok then bl[j := mark_sent (bl ! j)] else bl"
    from Cons.prems have run: "send_loop x tok chat n refs
        (?bl1, if ok then Suc sc else sc, if ok then fe else if fe = [] then err else fe) ?w1 = (Inr (bl', sc', fe'), w')"
      unfolding r send_loop_step [OF kvs True [unfolded has_url_def] api] by (cases ok) simp_all
    from Cons.IH [OF run] obtain t where t: "trace w' = trace ?w1 @ t" "files w' = files ?w1" "writes t = []"
      "searches t = []" "list_all is_progress (prints t)"
      "map fst (sends t) = map (\<lambda>r. message_of (?bl1 ! snd r)) (filter (\<lambda>r. has_url (?bl1 ! snd r)) refs)"
      "sc' = (if ok then Suc sc else sc) + length (filter (\<lambda>s. fst (snd s)) (sends t))"
      by blast
    have same: "map (\<lambda>r. message_of (?bl1 ! snd r)) (filter (\<lambda>r. has_url (?bl1 ! snd r)) refs)
        = map (\<lambda>r. message_of (bl ! snd r)) (filter (\<lambda>r. has_url (bl ! snd r)) refs)"
      by simp
    let ?t1 = "Sent ?m ok err # (if i mod 10 = 0 \<or> i = n then [Print (LProgress i n (if ok then Suc sc else sc))] else [])"
    have t1: "trace ?w1 = trace w @ ?t1"
      by (simp add: trace_progress)
    have "trace w' = trace w @ (?t1 @ t)"
      using t(1) t1 by simp
    moreover have "writes (?t1 @ t) = []" "searches (?t1 @ t) = []" "list_all is_progress (prints (?t1 @ t))"
      using t by simp_all
    moreover have "map fst (sends (?t1 @ t)) = map (\<lambda>r. message_of (bl ! snd r)) (filter (\<lambda>r. has_url (bl ! snd r)) (r # refs))"
      using t(6) True unfolding same by (simp add: r message_of_def)
    moreover have "sc' = sc + length (filter (\<lambda>s. fst (snd s)) (sends (?t1 @ t)))"
      using t(7) by simp
    moreover have "files w' = files w" using t(2) by simp
    ultimately show ?thesis by blast
  qed
qed


lemma pending_refs_nth:
  "pending_refs bl n = Inr ps \<Longrightarrow> map (\<lambda>j. bl ! (j - n)) ps = filter is_pending bl"
proof (induction bl arbitrary: n ps)
  case Nil
  then show ?case by simp
next
  case (Cons e es)
  from Cons.prems obtain v ps' where v: "dict_get e ''telegram_sent'' JNull = Inr v"
    and ps': "pending_refs es (Suc n) = Inr ps'"
    and ps: "ps = (if v = JBool False then n # ps' else ps')"
    by (auto split: sum.splits)
  from pending_refs_sorted [OF ps'] have ge: "\<forall>j\<in>set ps'. Suc n \<le> j" by simp
  have "map (\<lambda>j. (e # es) ! (j - n)) ps' = map (\<lambda>j. es ! (j - Suc n)) ps'"
    using ge by (auto simp: nth_Cons' Suc_le_eq)
  also have "\<dots> = filter is_pending es" by (rule Cons.IH [OF ps'])
  finally have tl: "map (\<lambda>j. (e # es) ! (j - n)) ps' = filter is_pending es" .
  have hd: "is_pending e = (v = JBool False)"
    using v by (simp add: is_pending_def)
  show ?case
    unfolding ps using tl hd by simp
qed

lemma map_filter_enumerate:
  "map (\<lambda>r. f (snd r)) (filter (\<lambda>r. P (snd r)) (enumerate n xs)) = map f (filter P xs)"
  by (induction xs arbitrary: n) simp_all

lemma pass_result:
  assumes "pending_refs bl 0 = Inr ps"
  shows "\<exists>final sc fe t.
      send_loop x tok chat (length ps) (enumerate 1 ps) (bl, 0, []) w = (Inr (final, sc, fe), w\<lparr>trace := trace w @ t\<rparr>) \<and>
      length final = length bl \<and> (\<forall>j<length bl. pass_step t (bl ! j) (final ! j)) \<and>
      writes t = [] \<and> searches t = [] \<and> list_all is_progress (prints t) \<and>
      map fst (sends t) = map message_of (filter has_url (filter is_pending bl)) \<and>
      sc = length (filter (\<lambda>s. fst (snd s)) (sends t))"
proof -
  have "\<exists>kvs. bl ! j = JObj kvs" if "j \<in> set ps" for j
  proof -
    from that pending_refs_set [OF assms] have "is_pending (bl ! j)" by auto
    then show ?thesis by (rule is_pending_dict)
  qed
  moreover have "snd r \<in> set ps" if "r \<in> set (enumerate 1 ps)" for r
    using that by (metis in_set_zipE enumerate_eq_zip prod.collapse)
  ultimately have "\<forall>r\<in>set (enumerate 1 ps). \<exists>kvs. bl ! snd r = JObj kvs"
    by blast
  from send_loop_total [OF this] obtain final sc fe w' where
    run: "send_loop x tok chat (length ps) (enumerate 1 ps) (bl, 0, []) w = (Inr (final, sc, fe), w')"
    by blast
  from send_loop_sends [OF run] obtain t where t: "trace w' = trace w @ t" "files w' = files w" "writes t = []"
    "searches t = []" "list_all is_progress (prints t)"
    "map fst (sends t) = map (\<lambda>r. message_of (bl ! snd r)) (filter (\<lambda>r. has_url (bl ! snd r)) (enumerate 1 ps))"
    "sc = 0 + length (filter (\<lambda>s. fst (snd s)) (sends t))"
    by blast
  from send_loop_steps [OF run] t(1) have steps: "length final = length bl" "\<forall>j<length bl. pass_step t (bl ! j) (final ! j)"
    by auto
  have w': "w' = w\<lparr>trace := trace w @ t\<rparr>"
    using t(1,2) by simp
  have "map (\<lambda>r. message_of (bl ! snd r)) (filter (\<lambda>r. has_url (bl ! snd r)) (enumerate 1 ps))
      = map (\<lambda>j. message_of (bl ! j)) (filter (\<lambda>j. has_url (bl ! j)) ps)"
    by (rule map_filter_enumerate)
  also have "\<dots> = map message_of (filter has_url (map (\<lambda>j. bl ! j) ps))"
    by (simp add: filter_map comp_def)
  also have "\<dots> = map message_of (filter has_url (filter is_pending bl))"
    using pending_refs_nth [OF assms] by simp
  finally have "map fst (sends t) = map message_of (filter has_url (filter is_pending bl))"
    using t(6) by simp
  with run steps t(3,4,5,7) show ?thesis
    unfolding w' by (intro exI [of _ final] exI [of _ sc] exI [of _ fe] exI [of _ t]) simp
qed

section \<open>Resending the whole queue\<close>

lemma mark_all_unsent_nth:
  "mark_all_unsent bl = Inr reset \<Longrightarrow>
   length reset = length bl \<and>
   (\<forall>j<length bl. set_item (bl ! j) ''telegram_sent'' (JBool False) = Inr (reset ! j))"
proof (induction bl arbitrary: reset)
  case Nil
  then show ?case by simp
next
  case (Cons e es)
  from Cons.prems obtain e' es' where e': "set_item e ''telegram_sent'' (JBool False) = Inr e'"
    and es': "mark_all_unsent es = Inr es'" and reset: "reset = e' # es'"
    by (auto split: sum.splits)
  from Cons.IH [OF es'] e' show ?case
    by (auto simp: reset nth_Cons')
qed

lemma set_item_unsent:
  "set_item e ''telegram_sent'' (JBool False) = Inr e' \<Longrightarrow>
   is_pending e' \<and> field e' ''url'' = field e ''url'' \<and> field e' ''keyword'' = field e ''keyword'' \<and>
   url_str e' = url_str e \<and> subscript e' ''url'' = subscript e ''url''"
  by (cases e) (auto simp: is_pending_def field_def url_str_def update_conv')







section \<open>The shape of a pass\<close>

lemma sync_eq:
  "sync_telegram_bot_and_send x ev new_activity_entries w =
     (case reconcile new_activity_entries w of Inl e \<Rightarrow> (Inl e, w) | Inr bl \<Rightarrow> deliver x ev bl w)"
  by (simp add: sync_telegram_bot_and_send_def reconcile_def deliver_def Let_def split: sum.splits prod.splits)

lemma reconcile_prefix:
  "reconcile new w = Inr bl \<Longrightarrow> \<exists>more. bl = load_bot_list (files w TelegramBotFile) @ more"
  by (auto simp: reconcile_def Let_def split: sum.splits prod.splits option.splits if_splits
      dest: add_entries_prefix)

lemma pass_step_Nil: "pass_step [] e e' \<longleftrightarrow> e' = e"
  by (simp add: pass_step_def delivered_def)

lemma totals_append [simp]: "totals (a @ b) = totals a @ totals b"
  by (induction a rule: totals.induct) simp_all

lemma progress_totals: "list_all is_progress (prints t) \<Longrightarrow> totals t = []"
proof (induction t)
  case Nil
  then show ?case by simp
next
  case (Cons a t)
  show ?case
  proof (cases a)
    case (Print l)
    with Cons show ?thesis by (cases l) simp_all
  qed (use Cons in simp_all)
qed

lemma deliver_shape:
  assumes "deliver x ev bl w = (r, w')"
  shows "(\<exists>e. r = Inl e \<and> w' = w \<and> pending_refs bl 0 = Inl e) \<or>
     (r = Inr () \<and>
      (\<exists>final t tail.
         w' = w\<lparr>files := (files w)(TelegramBotFile \<mapsto> Json (JArr final)),
                trace := trace w @ t @ Wrote TelegramBotFile (JArr final) # tail\<rparr> \<and>
         length final = length bl \<and> (\<forall>j<length bl. pass_step t (bl ! j) (final ! j)) \<and>
         writes t = [] \<and> searches t = [] \<and> writes tail = [] \<and> sends tail = [] \<and> searches tail = [] \<and>
         (totals (t @ tail) = [] \<and> sends t = [] \<or>
          totals (t @ tail) = [length (filter is_pending bl)] \<and>
          map fst (sends t) = map message_of (filter has_url (filter is_pending bl)))))"
proof (cases "pending_refs bl 0")
  case (Inl e)
  with assms show ?thesis by (simp add: deliver_def)
next
  case (Inr ps)
  have quiet: "\<exists>final t tail.
         w\<lparr>files := (files w)(TelegramBotFile \<mapsto> Json (JArr bl)), trace := trace w @ [Wrote TelegramBotFile (JArr bl), Print l]\<rparr> =
         w\<lparr>files := (files w)(TelegramBotFile \<mapsto> Json (JArr final)),
                trace := trace w @ t @ Wrote TelegramBotFile (JArr final) # tail\<rparr> \<and>
         length final = length bl \<and> (\<forall>j<length bl. pass_step t (bl ! j) (final ! j)) \<and>
         writes t = [] \<and> searches t = [] \<and> writes tail = [] \<and> sends tail = [] \<and> searches tail = [] \<and>
         (totals (t @ tail) = [] \<and> sends t = [] \<or>
          totals (t @ tail) = [length (filter is_pending bl)] \<and>
          map fst (sends t) = map message_of (filter has_url (filter is_pending bl)))"
    if "totals [Print l] = []" for l
    using that by - (rule exI [of _ bl], rule exI [of _ "[]"], rule exI [of _ "[Print l]"], simp)
  show ?thesis
  proof (cases "ps = [] \<or> \<not> (truthy_str (TELEGRAM_BOT_TOKEN ev) \<and> truthy_str (TELEGRAM_GROUP_CHAT_ID ev))")
    case True
    then have "(r, w') = (Inr (), emit (Print LNothingToSend) (write_file TelegramBotFile (JArr bl) w)) \<or>
        (r, w') = (Inr (), emit (Print LNoTelegramCreds) (write_file TelegramBotFile (JArr bl) w))"
      using assms Inr by (auto simp: deliver_def truthy_str_def split: option.splits if_splits)
    then show ?thesis
      using quiet [of LNothingToSend] quiet [of LNoTelegramCreds]
      by (auto simp: emit_def write_file_def)
  next
    case False
    then obtain token chat_id where creds: "TELEGRAM_BOT_TOKEN ev = Some token" "token \<noteq> []"
        "TELEGRAM_GROUP_CHAT_ID ev = Some chat_id" "chat_id \<noteq> []" and ne: "ps \<noteq> []"
      by (auto simp: truthy_str_def split: option.splits)
    let ?w1 = "emit (Print (LSending (length ps))) w"
    from pass_result [OF Inr, of x token chat_id ?w1] obtain final sc fe t0 where
      run: "send_loop x token chat_id (length ps) (enumerate 1 ps) (bl, 0, []) ?w1 = (Inr (final, sc, fe), ?w1\<lparr>trace := trace ?w1 @ t0\<rparr>)"
      and fin: "length final = length bl" "\<forall>j<length bl. pass_step t0 (bl ! j) (final ! j)"
      and t0: "writes t0 = []" "searches t0 = []" "list_all is_progress (prints t0)"
        "map fst (sends t0) = map message_of (filter has_url (filter is_pending bl))"
      by blast
    let ?l = "if sc \<noteq> 0 then LSent sc else LSendFailed fe"
    let ?t = "Print (LSending (length (filter is_pending bl))) # t0"
    have lps: "length ps = length (filter is_pending bl)"
      by (rule pending_refs_length [OF Inr])
    have "(r, w') = (Inr (), emit (Print ?l) (write_file TelegramBotFile (JArr final) (?w1\<lparr>trace := trace ?w1 @ t0\<rparr>)))"
      using assms Inr creds ne run unfolding deliver_def by (simp del: send_loop.simps)
    then have r: "r = Inr ()" and w': "w' = w\<lparr>files := (files w)(TelegramBotFile \<mapsto> Json (JArr final)),
                trace := trace w @ ?t @ Wrote TelegramBotFile (JArr final) # [Print ?l]\<rparr>"
      by (simp_all add: emit_def write_file_def lps)
    have steps: "\<forall>j<length bl. pass_step ?t (bl ! j) (final ! j)"
      using fin(2) pass_step_later [of t0 _ _ "[Print (LSending (length (filter is_pending bl)))]"] by simp
    have "totals [Print ?l] = []" by simp
    then have "\<exists>final t tail.
         w' = w\<lparr>files := (files w)(TelegramBotFile \<mapsto> Json (JArr final)),
                trace := trace w @ t @ Wrote TelegramBotFile (JArr final) # tail\<rparr> \<and>
         length final = length bl \<and> (\<forall>j<length bl. pass_step t (bl ! j) (final ! j)) \<and>
         writes t = [] \<and> searches t = [] \<and> writes tail = [] \<and> sends tail = [] \<and> searches tail = [] \<and>
         (totals (t @ tail) = [] \<and> sends t = [] \<or>
          totals (t @ tail) = [length (filter is_pending bl)] \<and>
          map fst (sends t) = map message_of (filter has_url (filter is_pending bl)))"
      using w' fin(1) steps t0 progress_totals [OF t0(3)]
      by - (rule exI [of _ final], rule exI [of _ ?t], rule exI [of _ "[Print ?l]"], simp)
    with r show ?thesis by blast
  qed
qed


lemma send_pending_shape:
  assumes "send_pending x token chat_id resend c w = (r, w')"
  shows "(files w' = files w \<and>
      (\<exists>t. trace w' = trace w @ t \<and> writes t = [] \<and> sends t = [] \<and> searches t = [] \<and> totals t = [])) \<or>
     (r = Inr () \<and>
      (\<exists>bl final t tail.
         (if resend then mark_all_unsent (parse_bot_list c) = Inr bl else bl = parse_bot_list c) \<and>
         w' = w\<lparr>files := (files w)(TelegramBotFile \<mapsto> Json (JArr final)),
                trace := trace w @ t @ Wrote TelegramBotFile (JArr final) # tail\<rparr> \<and>
         length final = length bl \<and> (\<forall>j<length bl. pass_step t (bl ! j) (final ! j)) \<and>
         writes t = [] \<and> searches t = [] \<and> writes tail = [] \<and> sends tail = [] \<and> searches tail = [] \<and>
         (totals (t @ tail) = [] \<and> sends t = [] \<or>
          totals (t @ tail) = [length (filter is_pending bl)] \<and>
          map fst (sends t) = map message_of (filter has_url (filter is_pending bl)))))"
proof (cases "if resend then mark_all_unsent (parse_bot_list c) else Inr (parse_bot_list c)")
  case (Inl e)
  with assms have "w' = w" by (simp add: send_pending_def)
  then show ?thesis by simp
next
  case (Inr bl)
  then have bl: "if resend then mark_all_unsent (parse_bot_list c) = Inr bl else bl = parse_bot_list c"
    by (simp split: if_splits)
  let ?pre = "if resend then [Print LMarkedUnsent] else []"
  let ?w0 = "if resend then emit (Print LMarkedUnsent) w else w"
  have w0: "?w0 = w\<lparr>trace := trace w @ ?pre\<rparr>"
    by (simp add: emit_def)
  show ?thesis
  proof (cases "pending_refs bl 0")
    case (Inl e)
    with assms Inr have "w' = ?w0" by (simp add: send_pending_def)
    then show ?thesis by (auto simp: emit_def)
  next
    case ps: (Inr ps)
    show ?thesis
    proof (cases "ps = []")
      case True
      show ?thesis
      proof (cases resend)
        case False
        with assms Inr ps True have "w' = emit (Print LNothingPending) w"
          by (simp add: send_pending_def)
        then show ?thesis by (auto simp: emit_def)
      next
        case resend: True
        with assms Inr ps \<open>ps = []\<close>
        have r: "r = Inr ()" and w': "w' = w\<lparr>files := (files w)(TelegramBotFile \<mapsto> Json (JArr bl)),
                trace := trace w @ [Print LMarkedUnsent, Print LNothingPending] @ Wrote TelegramBotFile (JArr bl) # []\<rparr>"
          by (simp_all add: send_pending_def emit_def write_file_def)
        have "\<exists>bl final t tail.
         (if resend then mark_all_unsent (parse_bot_list c) = Inr bl else bl = parse_bot_list c) \<and>
         w' = w\<lparr>files := (files w)(TelegramBotFile \<mapsto> Json (JArr final)),
                trace := trace w @ t @ Wrote TelegramBotFile (JArr final) # tail\<rparr> \<and>
         length final = length bl \<and> (\<forall>j<length bl. pass_step t (bl ! j) (final ! j)) \<and>
         writes t = [] \<and> searches t = [] \<and> writes tail = [] \<and> sends tail = [] \<and> searches tail = [] \<and>
         (totals (t @ tail) = [] \<and> sends t = [] \<or>
          totals (t @ tail) = [length (filter is_pending bl)] \<and>
          map fst (sends t) = map message_of (filter has_url (filter is_pending bl)))"
          using bl w'
          by - (rule exI [of _ bl], rule exI [of _ bl], rule exI [of _ "[Print LMarkedUnsent, Print LNothingPending]"],
              rule exI [of _ "[]"], simp)
        with r show ?thesis by blast
      qed
    next
      case False
      let ?w1 = "emit (Print (LSendingPending (length ps))) ?w0"
      from pass_result [OF ps, of x token chat_id ?w1] obtain final sc fe t0 where
        run: "send_loop x token chat_id (length ps) (enumerate 1 ps) (bl, 0, []) ?w1 = (Inr (final, sc, fe), ?w1\<lparr>trace := trace ?w1 @ t0\<rparr>)"
        and fin: "length final = length bl" "\<forall>j<length bl. pass_step t0 (bl ! j) (final ! j)"
        and t0: "writes t0 = []" "searches t0 = []" "list_all is_progress (prints t0)"
          "map fst (sends t0) = map message_of (filter has_url (filter is_pending bl))"
        by blast
      let ?tail = "if sc \<noteq> 0 then [Print (LDone sc (length ps))] else [Print (LFailed fe), Print LCheck]"
      let ?t = "?pre @ Print (LSendingPending (length (filter is_pending bl))) # t0"
      have lps: "length ps = length (filter is_pending bl)"
        by (rule pending_refs_length [OF ps])
      have "(r, w') = (Inr (), if sc \<noteq> 0 then emit (Print (LDone sc (length ps)))
                           (write_file TelegramBotFile (JArr final) (?w1\<lparr>trace := trace ?w1 @ t0\<rparr>))
                       else emit (Print LCheck) (emit (Print (LFailed fe))
                              (write_file TelegramBotFile (JArr final) (?w1\<lparr>trace := trace ?w1 @ t0\<rparr>))))"
        using assms Inr ps False run unfolding send_pending_def
        by (cases resend; cases "sc = 0"; simp del: send_loop.simps)
      then have r: "r = Inr ()" and w': "w' = w\<lparr>files := (files w)(TelegramBotFile \<mapsto> Json (JArr final)),
                trace := trace w @ ?t @ Wrote TelegramBotFile (JArr final) # ?tail\<rparr>"
        by (simp_all add: emit_def write_file_def lps)
      have steps: "\<forall>j<length bl. pass_step ?t (bl ! j) (final ! j)"
        using fin(2) pass_step_later [of t0 _ _ "?pre @ [Print (LSendingPending (length (filter is_pending bl)))]"] by simp
      have "\<exists>bl final t tail.
         (if resend then mark_all_unsent (parse_bot_list c) = Inr bl else bl = parse_bot_list c) \<and>
         w' = w\<lparr>files := (files w)(TelegramBotFile \<mapsto> Json (JArr final)),
                trace := trace w @ t @ Wrote TelegramBotFile (JArr final) # tail\<rparr> \<and>
         length final = length bl \<and> (\<forall>j<length bl. pass_step t (bl ! j) (final ! j)) \<and>
         writes t = [] \<and> searches t = [] \<and> writes tail = [] \<and> sends tail = [] \<and> searches tail = [] \<and>
         (totals (t @ tail) = [] \<and> sends t = [] \<or>
          totals (t @ tail) = [length (filter is_pending bl)] \<and>
          map fst (sends t) = map message_of (filter has_url (filter is_pending bl)))"
        using bl w' fin(1) steps t0 progress_totals [OF t0(3)]
        by - (rule exI [of _ bl], rule exI [of _ final], rule exI [of _ ?t], rule exI [of _ ?tail], simp)
      with r show ?thesis by blast
    qed
  qed
qed

lemma send_main_shape:
  assumes "send_telegram_pending_main x ev resend w = (r, w')"
  shows "(files w' = files w \<and>
      (\<exists>t. trace w' = trace w @ t \<and> writes t = [] \<and> sends t = [] \<and> searches t = [] \<and> totals t = [])) \<or>
     (r = Inr () \<and>
      (\<exists>bl final t tail.
         (if resend then mark_all_unsent (load_bot_list (files w TelegramBotFile)) = Inr bl
          else bl = load_bot_list (files w TelegramBotFile)) \<and>
         w' = w\<lparr>files := (files w)(TelegramBotFile \<mapsto> Json (JArr final)),
                trace := trace w @ t @ Wrote TelegramBotFile (JArr final) # tail\<rparr> \<and>
         length final = length bl \<and> (\<forall>j<length bl. pass_step t (bl ! j) (final ! j)) \<and>
         writes t = [] \<and> searches t = [] \<and> writes tail = [] \<and> sends tail = [] \<and> searches tail = [] \<and>
         (totals (t @ tail) = [] \<and> sends t = [] \<or>
          totals (t @ tail) = [length (filter is_pending bl)] \<and>
          map fst (sends t) = map message_of (filter has_url (filter is_pending bl)))))"
proof (cases "\<exists>token chat_id c. TELEGRAM_BOT_TOKEN ev = Some token \<and> token \<noteq> [] \<and>
    TELEGRAM_GROUP_CHAT_ID ev = Some chat_id \<and> chat_id \<noteq> [] \<and> files w TelegramBotFile = Some c")
  case True
  then obtain token chat_id c where creds: "TELEGRAM_BOT_TOKEN ev = Some token" "token \<noteq> []"
      "TELEGRAM_GROUP_CHAT_ID ev = Some chat_id" "chat_id \<noteq> []" and c: "files w TelegramBotFile = Some c"
    by blast
  have sp: "send_pending x token chat_id resend c w = (r, w')"
    using assms creds c by (simp add: send_telegram_pending_main_def)
  have lb: "load_bot_list (files w TelegramBotFile) = parse_bot_list c"
    by (simp add: load_bot_list_def c)
  show ?thesis
    unfolding lb by (rule send_pending_shape [OF sp])
next
  case False
  with assms have "w' = emit (Print LSetCreds) w \<or> w' = emit (Print LNoBotFile) w"
    by (auto simp: send_telegram_pending_main_def split: option.splits if_splits)
  then show ?thesis by (auto simp: emit_def)
qed

section \<open>Operations and their effect on the queue\<close>

lemma quiet_step_refl [simp]: "quiet_step w w"
  by (simp add: quiet_step_def)

lemma quiet_step_trans: "quiet_step w w1 \<Longrightarrow> quiet_step w1 w2 \<Longrightarrow> quiet_step w w2"
  by (auto simp: quiet_step_def)

lemma quiet_step_queue: "quiet_step w w' \<Longrightarrow> queue w' = queue w"
  by (simp add: quiet_step_def queue_def)

lemma pass_step_earlier: "pass_step t e e' \<Longrightarrow> pass_step (t @ t2) e e'"
  using pass_step_trans [of t e e' t2 e'] by simp

lemma pass_effectI:
  assumes "files w' TelegramBotFile = Some (Json (JArr final))" "length final = length bl"
    "\<forall>j<length bl. pass_step t (bl ! j) (final ! j)" "trace w' = trace w @ t"
    "totals t = [] \<and> sends t = [] \<or>
         totals t = [length (filter is_pending bl)] \<and>
         map fst (sends t) = map message_of (filter has_url (filter is_pending bl))"
  shows "pass_effect bl w w'"
  unfolding pass_effect_def using assms by blast

lemma pass_effect_left:
  assumes "quiet_step w w1" and "pass_effect bl w1 w2"
  shows "pass_effect bl w w2"
proof -
  from assms(1) obtain pre where pre: "trace w1 = trace w @ pre" "sends pre = []" "totals pre = []"
    by (auto simp: quiet_step_def)
  from assms(2) obtain final t where a: "files w2 TelegramBotFile = Some (Json (JArr final))" "length final = length bl"
      "\<forall>j<length bl. pass_step t (bl ! j) (final ! j)" "trace w2 = trace w1 @ t"
      "totals t = [] \<and> sends t = [] \<or>
         totals t = [length (filter is_pending bl)] \<and>
         map fst (sends t) = map message_of (filter has_url (filter is_pending bl))"
    unfolding pass_effect_def by blast
  show ?thesis
  proof (rule pass_effectI [OF a(1,2)])
    show "\<forall>j<length bl. pass_step (pre @ t) (bl ! j) (final ! j)"
      using a(3) pass_step_later by blast
    show "trace w2 = trace w @ pre @ t"
      using a(4) pre(1) by simp
    show "totals (pre @ t) = [] \<and> sends (pre @ t) = [] \<or>
         totals (pre @ t) = [length (filter is_pending bl)] \<and>
         map fst (sends (pre @ t)) = map message_of (filter has_url (filter is_pending bl))"
      using a(5) pre(2,3) by simp
  qed
qed

lemma pass_effect_right:
  assumes "pass_effect bl w w1" and "quiet_step w1 w2"
  shows "pass_effect bl w w2"
proof -
  from assms(2) obtain post where post: "trace w2 = trace w1 @ post" "sends post = []" "totals post = []"
    and f: "files w2 TelegramBotFile = files w1 TelegramBotFile"
    by (auto simp: quiet_step_def)
  from assms(1) obtain final t where a: "files w1 TelegramBotFile = Some (Json (JArr final))" "length final = length bl"
      "\<forall>j<length bl. pass_step t (bl ! j) (final ! j)" "trace w1 = trace w @ t"
      "totals t = [] \<and> sends t = [] \<or>
         totals t = [length (filter is_pending bl)] \<and>
         map fst (sends t) = map message_of (filter has_url (filter is_pending bl))"
    unfolding pass_effect_def by blast
  show ?thesis
  proof (rule pass_effectI [OF _ a(2)])
    show "files w2 TelegramBotFile = Some (Json (JArr final))"
      using f a(1) by simp
    show "\<forall>j<length bl. pass_step (t @ post) (bl ! j) (final ! j)"
      using a(3) pass_step_earlier by blast
    show "trace w2 = trace w @ t @ post"
      using a(4) post(1) by simp
    show "totals (t @ post) = [] \<and> sends (t @ post) = [] \<or>
         totals (t @ post) = [length (filter is_pending bl)] \<and>
         map fst (sends (t @ post)) = map message_of (filter has_url (filter is_pending bl))"
      using a(5) post(2,3) by simp
  qed
qed

lemma effect_left: "quiet_step w w1 \<Longrightarrow> effect b w1 w2 \<Longrightarrow> effect b w w2"
  unfolding effect_def
  using quiet_step_trans pass_effect_left quiet_step_queue by metis

lemma effect_right: "effect b w w1 \<Longrightarrow> quiet_step w1 w2 \<Longrightarrow> effect b w w2"
  unfolding effect_def
  using quiet_step_trans pass_effect_right by metis

lemma shape_pass_effect:
  assumes "w' = w\<lparr>files := (files w)(TelegramBotFile \<mapsto> Json (JArr final)),
                trace := trace w @ t @ Wrote TelegramBotFile (JArr final) # tail\<rparr>"
    and "length final = length bl" and "\<forall>j<length bl. pass_step t (bl ! j) (final ! j)"
    and "sends tail = []"
    and "totals (t @ tail) = [] \<and> sends t = [] \<or>
          totals (t @ tail) = [length (filter is_pending bl)] \<and>
          map fst (sends t) = map message_of (filter has_url (filter is_pending bl))"
  shows "pass_effect bl w w'"
proof (rule pass_effectI [OF _ assms(2)])
  let ?t = "t @ Wrote TelegramBotFile (JArr final) # tail"
  show "files w' TelegramBotFile = Some (Json (JArr final))" by (simp add: assms(1))
  show "\<forall>j<length bl. pass_step ?t (bl ! j) (final ! j)"
    using assms(3) pass_step_earlier by blast
  show "trace w' = trace w @ ?t" by (simp add: assms(1))
  show "totals ?t = [] \<and> sends ?t = [] \<or>
         totals ?t = [length (filter is_pending bl)] \<and>
         map fst (sends ?t) = map message_of (filter has_url (filter is_pending bl))"
    using assms(4,5) by simp
qed

lemma deliver_effect:
  assumes "deliver x ev bl w = (r, w')"
  shows "quiet_step w w' \<or> pass_effect bl w w'"
  using deliver_shape [OF assms] shape_pass_effect [of w' w _ _ _ bl] by (elim disjE exE conjE) auto

lemma sync_effect:
  assumes "sync_telegram_bot_and_send x ev new w = (r, w')"
  shows "effect False w w'"
proof (cases "reconcile new w")
  case (Inl e)
  with assms have "w' = w" by (simp add: sync_eq)
  then show ?thesis by (simp add: effect_def)
next
  case (Inr bl)
  with assms have "deliver x ev bl w = (r, w')" by (simp add: sync_eq)
  from deliver_effect [OF this] reconcile_prefix [OF Inr] show ?thesis
    by (auto simp: effect_def base_def queue_def)
qed

lemma send_main_effect:
  assumes "send_telegram_pending_main x ev resend w = (r, w')"
  shows "effect resend w w'"
  using send_main_shape [OF assms]
proof (elim disjE exE conjE)
  fix t assume "files w' = files w" "trace w' = trace w @ t" "sends t = []" "totals t = []"
  then have "quiet_step w w'" by (auto simp: quiet_step_def)
  then show ?thesis by (simp add: effect_def)
next
  fix bl final t tail
  assume b: "if resend then mark_all_unsent (load_bot_list (files w TelegramBotFile)) = Inr bl
          else bl = load_bot_list (files w TelegramBotFile)"
    and a: "w' = w\<lparr>files := (files w)(TelegramBotFile \<mapsto> Json (JArr final)),
                trace := trace w @ t @ Wrote TelegramBotFile (JArr final) # tail\<rparr>"
      "length final = length bl" "\<forall>j<length bl. pass_step t (bl ! j) (final ! j)" "sends tail = []"
      "totals (t @ tail) = []" "sends t = []"
  have "pass_effect bl w w'"
    by (rule shape_pass_effect [OF a(1,2,3,4)]) (use a(5,6) in simp)
  moreover have "base resend (queue w) bl"
    using b by (auto simp: base_def queue_def)
  ultimately show ?thesis by (auto simp: effect_def)
next
  fix bl final t tail
  assume b: "if resend then mark_all_unsent (load_bot_list (files w TelegramBotFile)) = Inr bl
          else bl = load_bot_list (files w TelegramBotFile)"
    and a: "w' = w\<lparr>files := (files w)(TelegramBotFile \<mapsto> Json (JArr final)),
                trace := trace w @ t @ Wrote TelegramBotFile (JArr final) # tail\<rparr>"
      "length final = length bl" "\<forall>j<length bl. pass_step t (bl ! j) (final ! j)" "sends tail = []"
      "totals (t @ tail) = [length (filter is_pending bl)]"
      "map fst (sends t) = map message_of (filter has_url (filter is_pending bl))"
  have "pass_effect bl w w'"
    by (rule shape_pass_effect [OF a(1,2,3,4)]) (use a(5,6) in simp)
  moreover have "base resend (queue w) bl"
    using b by (auto simp: base_def queue_def)
  ultimately show ?thesis by (auto simp: effect_def)
qed

lemma search_google_quiet:
  "search_google x ev k n a s l u sk w = (r, w1) \<Longrightarrow>
   files w1 = files w \<and> (\<exists>t. trace w1 = trace w @ t \<and> sends t = [] \<and> totals t = [] \<and> writes t = [])"
  by (auto simp: search_google_def search_serpapi_def search_google_cse_def Let_def
      split: if_splits option.splits prod.splits)

lemma print_results_quiet:
  "files (print_results i rs w) = files w \<and>
   (\<exists>t. trace (print_results i rs w) = trace w @ t \<and> sends t = [] \<and> totals t = [] \<and> writes t = [] \<and> searches t = [])"
proof (induction rs arbitrary: i w)
  case Nil
  then show ?case by simp
next
  case (Cons r rs)
  let ?w1 = "emit (Print LBlank)
          ((if snippet r \<noteq> [] then emit (Print (LSnippet (take 120 (snippet r)))) else id)
             (emit (Print (LLink (link r))) (emit (Print (LTitle i (title r))) w)))"
  from Cons [of "Suc i" ?w1] obtain t where t: "files (print_results (Suc i) rs ?w1) = files ?w1"
      "trace (print_results (Suc i) rs ?w1) = trace ?w1 @ t" "sends t = []" "totals t = []" "writes t = []" "searches t = []"
    by blast
  obtain t1 where t1: "trace ?w1 = trace w @ t1" "sends t1 = []" "totals t1 = []" "writes t1 = []" "searches t1 = []"
    by (cases "snippet r = []") simp_all
  have "files ?w1 = files w" by simp
  with t t1 show ?case
    by - (rule conjI, simp, rule exI [of _ "t1 @ t"], simp)
qed

lemma search_all_quiet:
  "search_all x ev n kws rbk w = (r, w1) \<Longrightarrow>
   files w1 = files w \<and> (\<exists>t. trace w1 = trace w @ t \<and> sends t = [] \<and> totals t = [] \<and> writes t = [])"
proof (induction kws arbitrary: rbk w)
  case Nil
  then show ?case by simp
next
  case (Cons k kws)
  let ?w0 = "emit (Print LRule) (emit (Print (LKeyword k)) (emit (Print LRuleNL) w))"
  obtain r1 w1' where sg: "search_google x ev k n None None ''lang_en'' None None ?w0 = (r1, w1')"
    by (cases "search_google x ev k n None None ''lang_en'' None None ?w0")
  from search_google_quiet [OF sg] obtain t1 where t1: "files w1' = files w" "trace w1' = trace ?w0 @ t1"
      "sends t1 = []" "totals t1 = []" "writes t1 = []"
    by auto
  have base: "files w1' = files w \<and> (\<exists>t. trace w1' = trace w @ t \<and> sends t = [] \<and> totals t = [] \<and> writes t = [])"
    using t1 by simp
  have step: "files w1 = files w \<and> (\<exists>t. trace w1 = trace w @ t \<and> sends t = [] \<and> totals t = [] \<and> writes t = [])"
    if run: "search_all x ev n kws rbk' w2 = (r, w1)" and w2: "files w2 = files w1'"
      "\<exists>t. trace w2 = trace w1' @ t \<and> sends t = [] \<and> totals t = [] \<and> writes t = []" for rbk' w2
  proof -
    from Cons.IH [OF run] obtain t3 where t3: "files w1 = files w2" "trace w1 = trace w2 @ t3"
        "sends t3 = []" "totals t3 = []" "writes t3 = []"
      by auto
    from w2(2) obtain t2 where t2: "trace w2 = trace w1' @ t2" "sends t2 = []" "totals t2 = []" "writes t2 = []"
      by auto
    show ?thesis
      using t1 t2 t3 w2(1) by simp
  qed
  show ?case
  proof (cases r1)
    case (Inr results)
    with Cons.prems sg have "search_all x ev n kws (AList.update k (map result_dict results) rbk) (print_results 1 results w1') = (r, w1)"
      by simp
    from step [OF this] print_results_quiet [of 1 results w1'] show ?thesis by auto
  next
    case (Inl e)
    show ?thesis
    proof (cases "e = JSONDecodeError \<or> (\<exists>msg. e = ValueError msg \<or> e = RuntimeError msg)")
      case True
      with Cons.prems sg Inl have "search_all x ev n kws (AList.update k [] rbk) (emit (Print (LErrorFor k e)) w1') = (r, w1)"
        by auto
      from step [OF this] show ?thesis by simp
    next
      case False
      with Cons.prems sg Inl have "w1 = w1'"
        by (cases e) auto
      with base show ?thesis by simp
    qed
  qed
qed


lemma save_history_effect:
  "save_history run_at rbk w = (r, w1) \<Longrightarrow>
   w1 = w \<or> (\<exists>doc. r = Inr () \<and> w1 = write_file (HistoryFile (take 10 run_at)) doc w)"
  by (auto simp: save_history_def Let_def split: sum.splits option.splits)

lemma save_activity_effect:
  "save_activity run_at rbk w = (r, w1) \<Longrightarrow>
   w1 = w \<or> (\<exists>doc. w1 = write_file ActivityFile doc w)"
  by (auto simp: save_activity_def split: sum.splits option.splits prod.splits)

lemma quiet_step_write:
  "p \<noteq> TelegramBotFile \<Longrightarrow> quiet_step w (write_file p v w)"
  by (simp add: quiet_step_def)

lemma quiet_step_print: "totals [Print l] = [] \<Longrightarrow> quiet_step w (emit (Print l) w)"
  by (simp add: quiet_step_def)

lemma search_all_quiet_step: "search_all x ev n kws rbk w = (r, w1) \<Longrightarrow> quiet_step w w1"
  using search_all_quiet [of x ev n kws rbk w r w1] by (auto simp: quiet_step_def)

lemma save_history_quiet_step: "save_history run_at rbk w = (r, w1) \<Longrightarrow> quiet_step w w1"
  using save_history_effect [of run_at rbk w r w1] by (auto simp: quiet_step_write)

lemma save_activity_quiet_step: "save_activity run_at rbk w = (r, w1) \<Longrightarrow> quiet_step w w1"
  using save_activity_effect [of run_at rbk w r w1] by (auto simp: quiet_step_write)

lemma run_main_effect:
  assumes "run_keywords_main x ev kws n run_at w = (r, w')"
  shows "effect False w w'"
proof -
  obtain r1 w1 where s1: "search_all x ev n kws [] w = (r1, w1)"
    by (cases "search_all x ev n kws [] w")
  note q1 = search_all_quiet_step [OF s1]
  show ?thesis
  proof (cases r1)
    case (Inl e)
    with assms s1 have "w' = w1" by (simp add: run_keywords_main_def)
    with q1 show ?thesis by (simp add: effect_def)
  next
    case (Inr rbk)
    obtain r2 w2 where s2: "save_history run_at rbk w1 = (r2, w2)"
      by (cases "save_history run_at rbk w1")
    note q2 = quiet_step_trans [OF q1 save_history_quiet_step [OF s2]]
    show ?thesis
    proof (cases r2)
      case (Inl e)
      with assms s1 s2 Inr have "w' = w2" by (simp add: run_keywords_main_def)
      with q2 show ?thesis by (simp add: effect_def)
    next
      case hist: (Inr u)
      obtain r3 w3 where s3: "save_activity run_at rbk w2 = (r3, w3)"
        by (cases "save_activity run_at rbk w2")
      note q3 = quiet_step_trans [OF q2 save_activity_quiet_step [OF s3]]
      show ?thesis
      proof (cases r3)
        case (Inl e)
        with assms s1 s2 s3 Inr hist have "w' = w3" by (simp add: run_keywords_main_def)
        with q3 show ?thesis by (simp add: effect_def)
      next
        case act: (Inr new)
        let ?w3 = "emit (Print (LNewUrls (length new))) w3"
        have q3': "quiet_step w ?w3"
          by (rule quiet_step_trans [OF q3]) (simp add: quiet_step_print)
        obtain r4 w4 where s4: "sync_telegram_bot_and_send x ev new ?w3 = (r4, w4)"
          by (cases "sync_telegram_bot_and_send x ev new ?w3")
        have e4: "effect False w w4"
          by (rule effect_left [OF q3' sync_effect [OF s4]])
        have "w' = w4 \<or> w' = emit (Print (LSaved (take 10 run_at))) w4"
          using assms s1 s2 s3 s4 Inr hist act by (cases r4) (simp_all add: run_keywords_main_def)
        then show ?thesis
        proof
          assume "w' = w4"
          with e4 show ?thesis by simp
        next
          assume "w' = emit (Print (LSaved (take 10 run_at))) w4"
          then have "quiet_step w4 w'" by (simp add: quiet_step_print)
          from effect_right [OF e4 this] show ?thesis .
        qed
      qed
    qed
  qed
qed

lemma perform_effect:
  "perform x ev op w = (r, w') \<Longrightarrow> effect (op = ResendAll) w w'"
  by (cases op) (simp_all add: run_main_effect send_main_effect)


lemma not_pending_mark_sent [simp]: "\<not> is_pending (mark_sent e)"
  by (cases e) (simp_all add: mark_sent_def is_pending_def update_conv')

lemma queue_written:
  "files w TelegramBotFile = Some (Json (JArr final)) \<Longrightarrow> queue w = final"
  by (simp add: queue_def load_bot_list_def)

lemma effect_entry:
  assumes "effect resend w w'" and "j < length (queue w)"
  shows "j < length (queue w') \<and>
     (queue w' ! j = queue w ! j \<or>
      (\<exists>b. (if resend then set_item (queue w ! j) ''telegram_sent'' (JBool False) = Inr b else b = queue w ! j) \<and>
           (queue w' ! j = b \<or>
            queue w' ! j = mark_sent b \<and> delivered b (drop (length (trace w)) (trace w')))))"
proof (cases "quiet_step w w'")
  case True
  then show ?thesis using assms(2) by (simp add: quiet_step_queue)
next
  case False
  with assms(1) obtain bl final t where b: "base resend (queue w) bl"
    and a: "files w' TelegramBotFile = Some (Json (JArr final))" "length final = length bl"
      "\<forall>j<length bl. pass_step t (bl ! j) (final ! j)" "trace w' = trace w @ t"
    unfolding effect_def pass_effect_def by blast
  have q': "queue w' = final" by (rule queue_written [OF a(1)])
  have t: "drop (length (trace w)) (trace w') = t" by (simp add: a(4))
  have bj: "j < length bl \<and> (if resend then set_item (queue w ! j) ''telegram_sent'' (JBool False) = Inr (bl ! j)
      else bl ! j = queue w ! j)"
  proof (cases resend)
    case True
    with b have "mark_all_unsent (queue w) = Inr bl" by (simp add: base_def)
    from mark_all_unsent_nth [OF this] assms(2) True show ?thesis by simp
  next
    case False
    with b obtain more where "bl = queue w @ more" by (auto simp: base_def)
    with assms(2) False show ?thesis by (simp add: nth_append)
  qed
  then have "pass_step t (bl ! j) (final ! j)" using a(3) by simp
  then have "final ! j = bl ! j \<or> final ! j = mark_sent (bl ! j) \<and> delivered (bl ! j) t"
    by (simp add: pass_step_def)
  with bj have "\<exists>b. (if resend then set_item (queue w ! j) ''telegram_sent'' (JBool False) = Inr b else b = queue w ! j) \<and>
           (final ! j = b \<or> final ! j = mark_sent b \<and> delivered b t)"
    by (intro exI [of _ "bl ! j"]) simp
  with bj a(2) show ?thesis
    unfolding q' t by simp
qed

text \<open>
  For the entries that were stored before the operation: each keeps its place and its
  URL, goes from unsent to sent only when the operation made a confirmed send with its
  keyword and URL, and from sent to unsent only when the operation is the resend of all.
\<close>

lemma stored_entry_transitions:
  assumes "perform x ev op w = (r, w')" and "j < length (queue w)"
  shows "j < length (queue w') \<and>
     field (queue w' ! j) ''url'' = field (queue w ! j) ''url'' \<and>
     (is_pending (queue w ! j) \<and> \<not> is_pending (queue w' ! j) \<longrightarrow>
        delivered (queue w ! j) (drop (length (trace w)) (trace w'))) \<and>
     (\<not> is_pending (queue w ! j) \<and> is_pending (queue w' ! j) \<longrightarrow> op = ResendAll)"
proof -
  let ?e = "queue w ! j" and ?e' = "queue w' ! j" and ?t = "drop (length (trace w)) (trace w')"
  from effect_entry [OF perform_effect [OF assms(1)] assms(2)]
  have len: "j < length (queue w')"
    and alt: "?e' = ?e \<or>
      (\<exists>b. (if op = ResendAll then set_item ?e ''telegram_sent'' (JBool False) = Inr b else b = ?e) \<and>
           (?e' = b \<or> ?e' = mark_sent b \<and> delivered b ?t))"
    by auto
  from alt show ?thesis
  proof (elim disjE exE conjE)
    assume "?e' = ?e"
    with len show ?thesis by simp
  next
    fix b
    assume b: "if op = ResendAll then set_item ?e ''telegram_sent'' (JBool False) = Inr b else b = ?e"
      and e': "?e' = b"
    show ?thesis
    proof (cases "op = ResendAll")
      case True
      with b have "set_item ?e ''telegram_sent'' (JBool False) = Inr b" by simp
      from set_item_unsent [OF this] len e' True show ?thesis by simp
    next
      case False
      with b e' len show ?thesis by simp
    qed
  next
    fix b
    assume b: "if op = ResendAll then set_item ?e ''telegram_sent'' (JBool False) = Inr b else b = ?e"
      and e': "?e' = mark_sent b" and d: "delivered b ?t"
    have same: "field b ''url'' = field ?e ''url'' \<and> field b ''keyword'' = field ?e ''keyword''"
      using b set_item_unsent [of ?e b] by (cases "op = ResendAll") simp_all
    then have "delivered ?e ?t" using d by (simp add: delivered_def)
    with len e' same show ?thesis by simp
  qed
qed

lemma set_item_same:
  "is_pending e \<Longrightarrow> set_item e ''telegram_sent'' (JBool False) = Inr b \<Longrightarrow> b = e"
proof (cases e)
  case (JObj kvs)
  assume "is_pending e" "set_item e ''telegram_sent'' (JBool False) = Inr b"
  with JObj have "map_of kvs ''telegram_sent'' = Some (JBool False)" "b = JObj (AList.update ''telegram_sent'' (JBool False) kvs)"
    by (auto simp: is_pending_def split: option.splits)
  then show ?thesis using JObj by (simp add: update_triv)
qed (simp_all add: is_pending_def)

lemma message_link: "msg_link (message_of e) = field e ''url''"
  by (simp add: message_of_def)

lemma effect_stuck:
  assumes "effect resend w w'" and j: "j < length (queue w)"
    and p: "is_pending (queue w ! j)" and u: "\<not> has_url (queue w ! j)"
  shows "j < length (queue w') \<and> queue w' ! j = queue w ! j \<and>
     list_all (\<lambda>s. truthy (msg_link (fst s))) (sends (drop (length (trace w)) (trace w'))) \<and>
     list_all (\<lambda>n. length (sends (drop (length (trace w)) (trace w'))) < n)
       (totals (drop (length (trace w)) (trace w')))"
proof (cases "quiet_step w w'")
  case True
  then obtain t where "trace w' = trace w @ t" "sends t = []" "totals t = []"
    by (auto simp: quiet_step_def)
  then have "sends (drop (length (trace w)) (trace w')) = []" "totals (drop (length (trace w)) (trace w')) = []"
    by simp_all
  with True j show ?thesis by (simp add: quiet_step_queue)
next
  case False
  with assms(1) obtain bl final t where b: "base resend (queue w) bl"
    and a: "files w' TelegramBotFile = Some (Json (JArr final))" "length final = length bl"
      "\<forall>j<length bl. pass_step t (bl ! j) (final ! j)" "trace w' = trace w @ t"
      "totals t = [] \<and> sends t = [] \<or>
         totals t = [length (filter is_pending bl)] \<and>
         map fst (sends t) = map message_of (filter has_url (filter is_pending bl))"
    unfolding effect_def pass_effect_def by blast
  have q': "queue w' = final" by (rule queue_written [OF a(1)])
  have t: "drop (length (trace w)) (trace w') = t" by (simp add: a(4))
  have bj: "j < length bl \<and> bl ! j = queue w ! j"
  proof (cases resend)
    case True
    with b have "mark_all_unsent (queue w) = Inr bl" by (simp add: base_def)
    from mark_all_unsent_nth [OF this] j set_item_same [OF p] show ?thesis by simp
  next
    case False
    with b obtain more where "bl = queue w @ more" by (auto simp: base_def)
    with j show ?thesis by (simp add: nth_append)
  qed
  have links: "list_all (\<lambda>s. truthy (msg_link (fst s))) (sends t)"
  proof -
    have "list_all (\<lambda>m. truthy (msg_link m)) (map fst (sends t))"
    proof (cases "sends t = []")
      case True
      then show ?thesis by simp
    next
      case False
      with a(5) have msgs: "map fst (sends t) = map message_of (filter has_url (filter is_pending bl))"
        by auto
      show ?thesis
        unfolding msgs by (simp add: list_all_iff message_link has_url_def)
    qed
    then show ?thesis by (simp add: list_all_iff)
  qed
  have "\<not> delivered (bl ! j) t"
  proof
    assume "delivered (bl ! j) t"
    then obtain s where "s \<in> set (sends t)" "fst s = message_of (bl ! j)"
      by (auto simp: delivered_def list_ex_iff message_of_def)
    with links have "truthy (msg_link (message_of (bl ! j)))"
      by (auto simp: list_all_iff)
    with u bj show False by (simp add: message_link has_url_def)
  qed
  moreover have "pass_step t (bl ! j) (final ! j)" using a(3) bj by blast
  ultimately have same: "final ! j = bl ! j" by (auto simp: pass_step_def)
  have count: "list_all (\<lambda>n. length (sends t) < n) (totals t)"
  proof (cases "totals t = []")
    case True
    then show ?thesis by simp
  next
    case False
    with a(5) have tot: "totals t = [length (filter is_pending bl)]"
      and msgs: "map fst (sends t) = map message_of (filter has_url (filter is_pending bl))"
      by auto
    have "bl ! j \<in> set (filter is_pending bl)"
      using bj p by (auto simp: in_set_conv_nth)
    then have "length (filter has_url (filter is_pending bl)) < length (filter is_pending bl)"
      using u bj by (intro length_filter_less [of "bl ! j"]) simp_all
    moreover have "length (sends t) = length (filter has_url (filter is_pending bl))"
      using arg_cong [OF msgs, of length] by simp
    ultimately show ?thesis using tot by simp
  qed
  show ?thesis
    unfolding q' t using bj a(2) same links count by simp
qed

lemma later_stuck:
  assumes "later w w1" and "j < length (queue w)" and "is_pending (queue w ! j)" and "\<not> has_url (queue w ! j)"
  shows "j < length (queue w1) \<and> queue w1 ! j = queue w ! j"
  using assms
proof (induction rule: later.induct)
  case (now w)
  then show ?case by simp
next
  case (after w w1 x ev op r w2)
  then have s: "j < length (queue w1)" "queue w1 ! j = queue w ! j" by auto
  from effect_stuck [OF perform_effect [OF after.hyps(2)] s(1)] after.prems s(2)
  show ?case by simp
qed

text \<open>
  C9. Take a pending entry whose \<open>url\<close> is missing or empty. In every later operation,
  after any number of operations in between, the entry stays in its place exactly as it
  was, so still pending; every send of the operation carries a non-empty link, so none is
  made for this entry; and every total the operation announces is larger than the number
  of sends it makes, since the total counts this entry too.
\<close>

theorem entry_without_url_never_sent:
  assumes "later w w1" and "perform x ev op w1 = (r, w2)"
    and "j < length (queue w)" and "is_pending (queue w ! j)" and "\<not> has_url (queue w ! j)"
  shows "j < length (queue w2) \<and> queue w2 ! j = queue w ! j \<and>
     list_all (\<lambda>s. truthy (msg_link (fst s))) (sends (drop (length (trace w1)) (trace w2))) \<and>
     list_all (\<lambda>n. length (sends (drop (length (trace w1)) (trace w2))) < n)
       (totals (drop (length (trace w1)) (trace w2)))"
proof -
  from later_stuck [OF assms(1,3,4,5)] have s: "j < length (queue w1)" "queue w1 ! j = queue w ! j"
    by auto
  from effect_stuck [OF perform_effect [OF assms(2)] s(1)] assms(4,5) s(2)
  show ?thesis by simp
qed


theorem entry_without_url_never_sent_witness:
  "later (stored TelegramBotFile (Json (JArr [queue_entry [] ''X'' False, queue_entry ''https://a.example'' ''X'' False])) empty_world)
     (stored TelegramBotFile (Json (JArr [queue_entry [] ''X'' False, queue_entry ''https://a.example'' ''X'' False])) empty_world) \<and>
   0 < length (queue (stored TelegramBotFile (Json (JArr [queue_entry [] ''X'' False,
        queue_entry ''https://a.example'' ''X'' False])) empty_world)) \<and>
   is_pending (queue (stored TelegramBotFile (Json (JArr [queue_entry [] ''X'' False,
        queue_entry ''https://a.example'' ''X'' False])) empty_world) ! 0) \<and>
   \<not> has_url (queue (stored TelegramBotFile (Json (JArr [queue_entry [] ''X'' False,
        queue_entry ''https://a.example'' ''X'' False])) empty_world) ! 0) \<and>
   queue (snd (perform quiet_ext telegram_env SendPending
        (stored TelegramBotFile (Json (JArr [queue_entry [] ''X'' False,
           queue_entry ''https://a.example'' ''X'' False])) empty_world))) ! 0 = queue_entry [] ''X'' False \<and>
   list_all (\<lambda>n. length (sends (drop (length (trace (stored TelegramBotFile (Json (JArr [queue_entry [] ''X'' False,
           queue_entry ''https://a.example'' ''X'' False])) empty_world)))
        (trace (snd (perform quiet_ext telegram_env SendPending
           (stored TelegramBotFile (Json (JArr [queue_entry [] ''X'' False,
              queue_entry ''https://a.example'' ''X'' False])) empty_world)))))) < n)
     (totals (drop (length (trace (stored TelegramBotFile (Json (JArr [queue_entry [] ''X'' False,
           queue_entry ''https://a.example'' ''X'' False])) empty_world)))
        (trace (snd (perform quiet_ext telegram_env SendPending
           (stored TelegramBotFile (Json (JArr [queue_entry [] ''X'' False,
              queue_entry ''https://a.example'' ''X'' False])) empty_world)))))) \<and>
   totals (trace (snd (perform quiet_ext telegram_env SendPending
           (stored TelegramBotFile (Json (JArr [queue_entry [] ''X'' False,
              queue_entry ''https://a.example'' ''X'' False])) empty_world)))) = [2] \<and>
   map fst (sends (trace (snd (perform quiet_ext telegram_env SendPending
           (stored TelegramBotFile (Json (JArr [queue_entry [] ''X'' False,
              queue_entry ''https://a.example'' ''X'' False])) empty_world)))))
     = [Message (JStr ''X'') (JStr ''https://a.example'')]"
proof -
  let ?w = "stored TelegramBotFile (Json (JArr [queue_entry [] ''X'' False, queue_entry ''https://a.example'' ''X'' False])) empty_world"
  let ?w' = "snd (perform quiet_ext telegram_env SendPending ?w)"
  have run: "perform quiet_ext telegram_env SendPending ?w = (fst (perform quiet_ext telegram_env SendPending ?w), ?w')"
    by simp
  have l: "later ?w ?w" by (rule later.now)
  have q: "queue ?w = [queue_entry [] ''X'' False, queue_entry ''https://a.example'' ''X'' False]"
    by (simp add: queue_def stored_def load_bot_list_def)
  have j: "0 < length (queue ?w)" by (simp add: q)
  have q0: "queue ?w ! 0 = queue_entry [] ''X'' False" by (simp add: q)
  have p: "is_pending (queue ?w ! 0)" unfolding q0 by (simp add: queue_entry_def is_pending_def)
  have u: "\<not> has_url (queue ?w ! 0)" unfolding q0 by (simp add: queue_entry_def has_url_def field_def)
  have e: "totals (trace ?w') = [2]"
    "map fst (sends (trace ?w')) = [Message (JStr ''X'') (JStr ''https://a.example'')]"
    by code_simp+
  from entry_without_url_never_sent [OF l run j p u]
  have "queue ?w' ! 0 = queue_entry [] ''X'' False"
    "list_all (\<lambda>n. length (sends (drop (length (trace ?w)) (trace ?w'))) < n)
       (totals (drop (length (trace ?w)) (trace ?w')))"
    unfolding q0 by simp_all
  with l j p u e show ?thesis by blast
qed

section \<open>The queue covers the activity store\<close>

lemma url_str_cong:
  "map url_str a = map url_str b \<Longrightarrow> well_formed a = well_formed b \<and> str_urls a = str_urls b"
proof -
  assume eq: "map url_str a = map url_str b"
  have "well_formed es = list_all (\<lambda>u. u \<noteq> None) (map url_str es)" for es
    by (simp add: well_formed_def list_all_iff)
  moreover have "str_urls es = set (List.map_filter id (map url_str es))" for es
    by (simp add: str_urls_def List.map_filter_def filter_map comp_def)
  ultimately show ?thesis using eq by simp
qed

lemma url_values_well_formed: "well_formed es \<Longrightarrow> url_values es = JStr ` str_urls es"
proof (induction es)
  case Nil
  then show ?case by (simp add: url_values_def List.map_filter_def)
next
  case (Cons e es)
  then obtain s where s: "url_str e = Some s" by auto
  from url_strD [OF s] obtain kvs where "e = JObj kvs" "map_of kvs ''url'' = Some (JStr s)" by blast
  with Cons s show ?case
    by (simp add: url_values_def List.map_filter_def)
qed

lemma pass_step_url: "pass_step t e e' \<Longrightarrow> url_str e' = url_str e"
  by (cases e) (auto simp: pass_step_def mark_sent_def url_str_def update_conv')

lemma pass_urls:
  assumes "length final = length bl" and "\<forall>j<length bl. pass_step t (bl ! j) (final ! j)"
  shows "map url_str final = map url_str bl"
proof (rule nth_equalityI)
  show "length (map url_str final) = length (map url_str bl)" using assms(1) by simp
  fix i assume "i < length (map url_str final)"
  then have i: "i < length bl" using assms(1) by simp
  with assms(2) have "pass_step t (bl ! i) (final ! i)" by blast
  from pass_step_url [OF this] i assms(1) show "map url_str final ! i = map url_str bl ! i" by simp
qed

lemma mark_all_unsent_urls:
  assumes "mark_all_unsent q = Inr bl"
  shows "map url_str bl = map url_str q"
proof -
  from mark_all_unsent_nth [OF assms]
  have len: "length bl = length q" and nth: "\<forall>j<length q. set_item (q ! j) ''telegram_sent'' (JBool False) = Inr (bl ! j)"
    by auto
  show ?thesis
    using len nth set_item_unsent by (auto intro!: nth_equalityI)
qed

lemma deliver_urls:
  assumes "deliver x ev bl w = (Inr (), w')"
  shows "\<exists>final. files w' = (files w)(TelegramBotFile \<mapsto> Json (JArr final)) \<and> map url_str final = map url_str bl"
proof -
  from deliver_shape [OF assms] obtain final t tail where
    a: "w' = w\<lparr>files := (files w)(TelegramBotFile \<mapsto> Json (JArr final)),
                trace := trace w @ t @ Wrote TelegramBotFile (JArr final) # tail\<rparr>"
    "length final = length bl" "\<forall>j<length bl. pass_step t (bl ! j) (final ! j)"
    by auto
  have "files w' = (files w)(TelegramBotFile \<mapsto> Json (JArr final))" by (simp add: a(1))
  with pass_urls [OF a(2,3)] show ?thesis by blast
qed

lemma send_main_urls:
  assumes "send_telegram_pending_main x ev resend w = (r, w')"
  shows "files w' = files w \<or>
     (\<exists>final. files w' = (files w)(TelegramBotFile \<mapsto> Json (JArr final)) \<and>
         map url_str final = map url_str (queue w))"
proof (cases "files w' = files w")
  case True
  then show ?thesis by simp
next
  case False
  with send_main_shape [OF assms] obtain bl final t tail where
    b: "if resend then mark_all_unsent (load_bot_list (files w TelegramBotFile)) = Inr bl
          else bl = load_bot_list (files w TelegramBotFile)"
    and a: "w' = w\<lparr>files := (files w)(TelegramBotFile \<mapsto> Json (JArr final)),
                trace := trace w @ t @ Wrote TelegramBotFile (JArr final) # tail\<rparr>"
    "length final = length bl" "\<forall>j<length bl. pass_step t (bl ! j) (final ! j)"
    by auto
  have "map url_str bl = map url_str (queue w)"
    using b mark_all_unsent_urls [of "queue w" bl] by (cases resend) (simp_all add: queue_def)
  moreover have "files w' = (files w)(TelegramBotFile \<mapsto> Json (JArr final))" by (simp add: a(1))
  ultimately show ?thesis using pass_urls [OF a(2,3)] by auto
qed


lemma hits_only_update:
  "hits_only rbk \<Longrightarrow> list_all (\<lambda>it. it \<in> range result_dict) items \<Longrightarrow> hits_only (AList.update k items rbk)"
  by (induction rbk) (auto simp: hits_only_def)

lemma search_all_hits:
  "search_all x ev n kws rbk0 w = (Inr rbk, w1) \<Longrightarrow> hits_only rbk0 \<Longrightarrow> hits_only rbk \<and> files w1 = files w"
proof (induction kws arbitrary: rbk0 w)
  case Nil
  then show ?case by simp
next
  case (Cons k kws)
  let ?w0 = "emit (Print LRule) (emit (Print (LKeyword k)) (emit (Print LRuleNL) w))"
  obtain r1 w1' where sg: "search_google x ev k n None None ''lang_en'' None None ?w0 = (r1, w1')"
    by (cases "search_google x ev k n None None ''lang_en'' None None ?w0")
  from search_google_quiet [OF sg] have f1: "files w1' = files w" by simp
  show ?case
  proof (cases r1)
    case (Inr results)
    with Cons.prems(1) sg have run: "search_all x ev n kws (AList.update k (map result_dict results) rbk0) (print_results 1 results w1') = (Inr rbk, w1)"
      by simp
    have "hits_only (AList.update k (map result_dict results) rbk0)"
      by (rule hits_only_update [OF Cons.prems(2)]) (simp add: list_all_iff)
    from Cons.IH [OF run this] f1 print_results_quiet [of 1 results w1'] show ?thesis by simp
  next
    case (Inl e)
    have "e = JSONDecodeError \<or> (\<exists>msg. e = ValueError msg \<or> e = RuntimeError msg)"
      using Cons.prems(1) sg Inl by (cases e) auto
    with Cons.prems(1) sg Inl have run: "search_all x ev n kws (AList.update k [] rbk0) (emit (Print (LErrorFor k e)) w1') = (Inr rbk, w1)"
      by auto
    have "hits_only (AList.update k [] rbk0)"
      by (rule hits_only_update [OF Cons.prems(2)]) simp
    from Cons.IH [OF run this] f1 show ?thesis by simp
  qed
qed

lemma record_items_wf:
  "record_items run_at kw items (seen_urls, JArr xs, new_entries) = Inr (seen', existing', new') \<Longrightarrow>
   list_all (\<lambda>it. it \<in> range result_dict) items \<Longrightarrow>
   \<exists>added. existing' = JArr (xs @ added) \<and> new' = new_entries @ added \<and> well_formed added"
proof (induction items arbitrary: seen_urls xs new_entries)
  case Nil
  then show ?case by simp
next
  case (Cons it items)
  from Cons.prems(2) obtain r where it: "it = result_dict r" and rest: "list_all (\<lambda>it. it \<in> range result_dict) items"
    by auto
  show ?case
  proof (cases "link r = [] \<or> HStr (link r) \<in> seen_urls")
    case True
    with Cons.prems(1) it have "record_items run_at kw items (seen_urls, JArr xs, new_entries) = Inr (seen', existing', new')"
      by (auto simp: result_dict_def split: if_splits)
    from Cons.IH [OF this rest] show ?thesis .
  next
    case False
    let ?entry = "JObj [(''url'', JStr (link r)), (''first_seen'', JStr run_at), (''keyword'', JStr kw), (''title'', JStr (title r))]"
    from False Cons.prems(1) it
    have "record_items run_at kw items (insert (HStr (link r)) seen_urls, JArr (xs @ [?entry]), new_entries @ [?entry])
        = Inr (seen', existing', new')"
      by (simp add: result_dict_def)
    from Cons.IH [OF this rest] obtain added where
      "existing' = JArr ((xs @ [?entry]) @ added)" "new' = (new_entries @ [?entry]) @ added" "well_formed added"
      by blast
    moreover have "url_str ?entry = Some (link r)"
      using False by (simp add: url_str_def)
    ultimately show ?thesis
      by (intro exI [of _ "?entry # added"]) simp
  qed
qed

lemma record_all_wf:
  "record_all run_at rbk (seen_urls, JArr xs, new_entries) = Inr (seen', existing', new') \<Longrightarrow>
   hits_only rbk \<Longrightarrow>
   \<exists>added. existing' = JArr (xs @ added) \<and> new' = new_entries @ added \<and> well_formed added"
proof (induction rbk arbitrary: seen_urls xs new_entries)
  case Nil
  then show ?case by simp
next
  case (Cons kv rbk)
  obtain kw items where kv: "kv = (kw, items)" by (cases kv)
  from Cons.prems(2) have h: "list_all (\<lambda>it. it \<in> range result_dict) items" "hits_only rbk"
    by (simp_all add: hits_only_def kv)
  from Cons.prems(1) obtain s1 e1 n1 where
    one: "record_items run_at kw items (seen_urls, JArr xs, new_entries) = Inr (s1, e1, n1)"
    and more: "record_all run_at rbk (s1, e1, n1) = Inr (seen', existing', new')"
    by (auto simp: kv split: sum.splits)
  from record_items_wf [OF one h(1)] obtain a1 where a1: "e1 = JArr (xs @ a1)" "n1 = new_entries @ a1" "well_formed a1"
    by blast
  from Cons.IH [OF more [unfolded a1(1)] h(2)] obtain a2 where
    "existing' = JArr ((xs @ a1) @ a2)" "new' = n1 @ a2" "well_formed a2"
    by blast
  with a1 show ?case
    by (intro exI [of _ "a1 @ a2"]) simp
qed

lemma save_activity_ok:
  assumes "save_activity run_at rbk w = (Inr new, w1)" and "hits_only rbk"
    and "files w ActivityFile = None \<or> files w ActivityFile = Some (Json (JArr (activity w)))"
  shows "files w1 = (files w)(ActivityFile \<mapsto> Json (JArr (activity w @ new))) \<and> well_formed new"
proof -
  have loaded: "(case files w ActivityFile of Some c \<Rightarrow> json_load c | None \<Rightarrow> Inr (JArr [])) = Inr (JArr (activity w))"
  proof (cases "files w ActivityFile")
    case None
    then show ?thesis by (simp add: activity_def)
  next
    case (Some c)
    with assms(3) have "c = Json (JArr (activity w))" by simp
    with Some show ?thesis by simp
  qed
  from assms(1) obtain seen0 seen' existing where
    rec: "record_all run_at rbk (seen0, JArr (activity w), []) = Inr (seen', existing, new)"
    and w1: "w1 = write_file ActivityFile existing w"
    unfolding save_activity_def loaded by (auto split: sum.splits prod.splits)
  from record_all_wf [OF rec assms(2)] w1 show ?thesis by auto
qed


lemma reconcile_ok:
  assumes rec: "reconcile new w = Inr bl" and wq: "well_formed (queue w)" and wn: "well_formed new"
    and act: "files w ActivityFile = Some (Json (JArr acts))" and wa: "well_formed acts"
    and sub: "str_urls acts \<subseteq> str_urls (queue w) \<union> str_urls new"
  shows "well_formed bl \<and> str_urls acts \<subseteq> str_urls bl"
proof -
  let ?q = "load_bot_list (files w TelegramBotFile)"
  have q: "queue w = ?q" by (simp add: queue_def)
  have seen0: "url_set ?q = Inr (HStr ` str_urls ?q)"
    using url_set_well_formed [OF wq] by (simp add: q)
  show ?thesis
  proof (cases "?q = []")
    case True
    from rec obtain s1 filled s2 where
      fill: "add_entries True acts (HStr ` str_urls []) [] = Inr (s1, filled)"
      and add: "add_entries False new s1 filled = Inr (s2, bl)"
      unfolding reconcile_def Let_def seen0 using True act
      by (auto simp: backfill_def split: sum.splits prod.splits)
    from add_entries_well_formed [OF fill wa] have f: "well_formed filled" "s1 = HStr ` str_urls filled"
        "str_urls filled = str_urls acts"
      by simp_all
    from add_entries_well_formed [OF add [unfolded f(2)] wn f(1)] f(3) show ?thesis by auto
  next
    case False
    from rec obtain s2 where add: "add_entries False new (HStr ` str_urls ?q) ?q = Inr (s2, bl)"
      unfolding reconcile_def Let_def seen0 using False act
      by (auto split: sum.splits prod.splits)
    from add_entries_well_formed [OF add wn] wq sub show ?thesis by (auto simp: q)
  qed
qed

lemma run_keeps_stores_ok:
  assumes run: "run_keywords_main x ev kws n run_at w = (Inr (), w')" and ok: "stores_ok w"
  shows "stores_ok w'"
proof -
  from run obtain rbk w1 w2 new w3 w4 where
    s1: "search_all x ev n kws [] w = (Inr rbk, w1)"
    and s2: "save_history run_at rbk w1 = (Inr (), w2)"
    and s3: "save_activity run_at rbk w2 = (Inr new, w3)"
    and s4: "sync_telegram_bot_and_send x ev new (emit (Print (LNewUrls (length new))) w3) = (Inr (), w4)"
    and w': "w' = emit (Print (LSaved (take 10 run_at))) w4"
    by (auto simp: run_keywords_main_def split: sum.splits prod.splits)
  let ?w3 = "emit (Print (LNewUrls (length new))) w3"
  from search_all_hits [OF s1] have h: "hits_only rbk" and f1: "files w1 = files w"
    by (simp_all add: hits_only_def)
  from save_history_effect [OF s2] f1
  have f2: "files w2 ActivityFile = files w ActivityFile" "files w2 TelegramBotFile = files w TelegramBotFile"
    by auto
  have a2: "activity w2 = activity w" "queue w2 = queue w"
    using f2 by (simp_all add: activity_def queue_def)
  have "files w2 ActivityFile = None \<or> files w2 ActivityFile = Some (Json (JArr (activity w2)))"
    using ok f2 a2 by (simp add: stores_ok_def)
  from save_activity_ok [OF s3 h this]
  have f3: "files w3 = (files w2)(ActivityFile \<mapsto> Json (JArr (activity w @ new)))" and wn: "well_formed new"
    by (simp_all add: a2)
  have act3: "files ?w3 ActivityFile = Some (Json (JArr (activity w @ new)))"
    by (simp add: f3)
  have q3: "queue ?w3 = queue w"
    by (simp add: queue_def f3 f2)
  from s4 obtain bl where rec: "reconcile new ?w3 = Inr bl" and del: "deliver x ev bl ?w3 = (Inr (), w4)"
    by (auto simp: sync_eq split: sum.splits)
  have "well_formed bl \<and> str_urls (activity w @ new) \<subseteq> str_urls bl"
    by (rule reconcile_ok [OF rec _ wn act3]) (use ok wn in \<open>auto simp: q3 stores_ok_def\<close>)
  then have bl: "well_formed bl" "str_urls (activity w @ new) \<subseteq> str_urls bl" by auto
  from deliver_urls [OF del] obtain final where
    f4: "files w4 = (files ?w3)(TelegramBotFile \<mapsto> Json (JArr final))" and u: "map url_str final = map url_str bl"
    by blast
  from url_str_cong [OF u] bl have fin: "well_formed final" "str_urls (activity w @ new) \<subseteq> str_urls final"
    by auto
  have "activity w' = activity w @ new" "queue w' = final"
    by (simp_all add: w' f4 f3 activity_def queue_def load_bot_list_def)
  moreover have "files w' ActivityFile = Some (Json (JArr (activity w @ new)))"
    "files w' TelegramBotFile = Some (Json (JArr final))"
    by (simp_all add: w' f4 f3)
  moreover have "well_formed (activity w @ new)"
    using ok wn by (simp add: stores_ok_def)
  ultimately show ?thesis
    using fin by (simp add: stores_ok_def)
qed

lemma send_keeps_stores_ok:
  assumes run: "send_telegram_pending_main x ev resend w = (r, w')" and ok: "stores_ok w"
  shows "stores_ok w'"
proof (cases "files w' = files w")
  case True
  with ok show ?thesis by (simp add: stores_ok_def activity_def queue_def)
next
  case False
  with send_main_urls [OF run] obtain final where
    f: "files w' = (files w)(TelegramBotFile \<mapsto> Json (JArr final))" and u: "map url_str final = map url_str (queue w)"
    by blast
  have "activity w' = activity w" "queue w' = final" "files w' ActivityFile = files w ActivityFile"
    "files w' TelegramBotFile = Some (Json (JArr final))"
    by (simp_all add: f activity_def queue_def load_bot_list_def)
  with url_str_cong [OF u] ok show ?thesis
    by (simp add: stores_ok_def)
qed

lemma reachable_stores_ok: "reachable w \<Longrightarrow> stores_ok w"
proof (induction rule: reachable.induct)
  case (fresh w)
  then show ?case by (simp add: stores_ok_def activity_def queue_def load_bot_list_def)
next
  case (complete w x ev op w')
  then show ?case
    by (cases op) (auto intro: run_keeps_stores_ok send_keeps_stores_ok)
qed

text \<open>
  C2. Start from empty stores (no file exists) and let any sequence of operations that
  complete follow: search runs, and sends of the queue between them. After each of them
  every URL of the activity store is a URL of the notification queue.
\<close>

theorem queue_covers_activity:
  assumes "reachable w"
  shows "url_values (activity w) \<subseteq> url_values (queue w)"
proof -
  from reachable_stores_ok [OF assms]
  have "well_formed (activity w)" "well_formed (queue w)" "str_urls (activity w) \<subseteq> str_urls (queue w)"
    by (simp_all add: stores_ok_def)
  then show ?thesis
    by (auto simp: url_values_well_formed)
qed


theorem queue_covers_activity_witness:
  "reachable after_two_runs \<and>
   url_values (activity after_two_runs) \<subseteq> url_values (queue after_two_runs) \<and>
   url_values (activity after_two_runs) = {JStr ''https://a.example'', JStr ''https://c.example''} \<and>
   queue after_two_runs = [queue_entry ''https://a.example'' ''X'' True,
     JObj [(''url'', JStr ''https://c.example''), (''first_seen'', JStr ''2024-01-02T00:00:00Z''),
           (''keyword'', JStr ''X''), (''title'', JStr ''Title''), (''telegram_sent'', JBool False)]]"
proof -
  let ?w1 = "snd (perform growing_ext serp_env (RunKeywords [''X''] 2 ''2024-01-01T00:00:00Z'') empty_world)"
  have "fst (perform growing_ext serp_env (RunKeywords [''X''] 2 ''2024-01-01T00:00:00Z'') empty_world) = Inr ()"
    by code_simp
  then have r1: "perform growing_ext serp_env (RunKeywords [''X''] 2 ''2024-01-01T00:00:00Z'') empty_world = (Inr (), ?w1)"
    by (simp add: prod_eq_iff)
  have "fst (perform growing_ext serp_env (RunKeywords [''X''] 2 ''2024-01-02T00:00:00Z'') ?w1) = Inr ()"
    by code_simp
  then have r2: "perform growing_ext serp_env (RunKeywords [''X''] 2 ''2024-01-02T00:00:00Z'') ?w1 = (Inr (), after_two_runs)"
    by (simp add: prod_eq_iff after_two_runs_def)
  have "files empty_world = (\<lambda>p. None)" by (simp add: empty_world_def)
  then have "reachable empty_world" by (rule reachable.fresh)
  then have "reachable ?w1" using r1 by (rule reachable.complete)
  then have reach: "reachable after_two_runs" using r2 by (rule reachable.complete)
  have vals: "url_values (activity after_two_runs) = {JStr ''https://a.example'', JStr ''https://c.example''}"
    by code_simp
  have q: "queue after_two_runs = [queue_entry ''https://a.example'' ''X'' True,
     JObj [(''url'', JStr ''https://c.example''), (''first_seen'', JStr ''2024-01-02T00:00:00Z''),
           (''keyword'', JStr ''X''), (''title'', JStr ''Title''), (''telegram_sent'', JBool False)]]"
    by code_simp
  from queue_covers_activity [OF reach] reach vals q show ?thesis by blast
qed

section \<open>A run without search credentials\<close>

lemma search_google_no_credentials:
  assumes "no_search_credentials ev" and "0 < n"
  shows "search_google x ev k n None None l None None w = (Inl (ValueError no_google_credentials), w)"
  using assms
  by (auto simp: search_google_def no_search_credentials_def py_or_def truthy_str_def Let_def
      split: option.splits)

lemma search_all_no_credentials:
  assumes "no_search_credentials ev" and "0 < n"
  shows "search_all x ev n kws rbk w =
     (Inr (fold (\<lambda>k. AList.update k []) kws rbk), w\<lparr>trace := trace w @ concat (map error_report kws)\<rparr>)"
proof (induction kws arbitrary: rbk w)
  case Nil
  then show ?case by simp
next
  case (Cons k kws)
  show ?case
    by (simp add: search_google_no_credentials [OF assms] Cons.IH emit_def error_report_def)
qed

lemma record_all_empty:
  "list_all (\<lambda>kv. snd kv = []) rbk \<Longrightarrow> record_all run_at rbk st = Inr st"
  by (induction rbk) auto

lemma empty_results_empty:
  "list_all (\<lambda>kv. snd kv = []) rbk \<Longrightarrow>
   list_all (\<lambda>kv. snd kv = []) (fold (\<lambda>k. AList.update k []) kws rbk)"
proof (induction kws arbitrary: rbk)
  case Nil
  then show ?case by simp
next
  case (Cons k kws)
  have "list_all (\<lambda>kv. snd kv = []) (AList.update k [] rbk)"
    using Cons.prems by (induction rbk) auto
  from Cons.IH [OF this] show ?case by simp
qed

lemma sync_trace:
  assumes "sync_telegram_bot_and_send x ev new w = (r, w')"
  shows "\<exists>t. trace w' = trace w @ t \<and> searches t = [] \<and>
     files w' ActivityFile = files w ActivityFile \<and> files w' (HistoryFile d) = files w (HistoryFile d)"
proof (cases "reconcile new w")
  case (Inl e)
  with assms have "w' = w" by (simp add: sync_eq)
  then show ?thesis by simp
next
  case (Inr bl)
  with assms have d: "deliver x ev bl w = (r, w')" by (simp add: sync_eq)
  show ?thesis
  proof (cases "w' = w")
    case True
    then show ?thesis by simp
  next
    case False
    with deliver_shape [OF d] obtain final t tail where
      "w' = w\<lparr>files := (files w)(TelegramBotFile \<mapsto> Json (JArr final)),
                trace := trace w @ t @ Wrote TelegramBotFile (JArr final) # tail\<rparr>"
      "searches t = []" "searches tail = []"
      by auto
    then show ?thesis
      by (intro exI [of _ "t @ Wrote TelegramBotFile (JArr final) # tail"]) simp
  qed
qed


lemma save_history_appends:
  assumes "day_runs w (take 10 run_at) = Some rs"
  shows "\<exists>doc. save_history run_at rbk w = (Inr (), write_file (HistoryFile (take 10 run_at)) doc w) \<and>
     subscript doc ''runs'' =
       Inr (JArr (rs @ [JObj [(''run_at'', JStr run_at), (''results'', results_json rbk)]]))"
proof (cases "files w (HistoryFile (take 10 run_at))")
  case None
  with assms have "rs = []" by (simp add: day_runs_def)
  with None show ?thesis
    by (intro exI [of _ "JObj [(''date'', JStr (take 10 run_at)),
          (''runs'', JArr [JObj [(''run_at'', JStr run_at), (''results'', results_json rbk)]])]"])
      (simp add: save_history_def Let_def)
next
  case (Some c)
  with assms obtain kvs where c: "c = Json (JObj kvs)" and r: "map_of kvs ''runs'' = Some (JArr rs)"
    by (auto simp: day_runs_def split: content.splits json.splits option.splits)
  show ?thesis
    using Some c r
    by (intro exI [of _ "JObj (AList.update ''runs''
          (JArr (rs @ [JObj [(''run_at'', JStr run_at), (''results'', results_json rbk)]])) kvs)"])
      (simp add: save_history_def Let_def update_conv')
qed

lemma save_activity_nothing:
  assumes "activity_loads w" and "list_all (\<lambda>kv. snd kv = []) rbk"
  shows "save_activity run_at rbk w = (Inr [], write_file ActivityFile (JArr (activity w)) w)"
proof (cases "files w ActivityFile")
  case None
  then show ?thesis
    using record_all_empty [OF assms(2)] by (simp add: save_activity_def activity_def)
next
  case (Some c)
  with assms(1) obtain es seen where "c = Json (JArr es)" "url_set es = Inr seen"
    by (auto simp: activity_loads_def split: content.splits json.splits sum.splits)
  with Some show ?thesis
    using record_all_empty [OF assms(2)] by (simp add: save_activity_def activity_def)
qed

lemma empty_results_lists: "list_all (\<lambda>kv. snd kv = []) (empty_results keywords)"
  unfolding empty_results_def by (rule empty_results_empty) simp

text \<open>
  C1 (as amended). When neither a SerpAPI key nor the pair of Google key and engine id
  is configured (and a positive number of results is asked for), a run of
  run\_keywords.py contacts no provider and does not abort: for every keyword it prints
  the banner and the configuration error, records an empty result list, and goes on to
  persist. With a readable history document for the day and a readable activity
  document, it appends a run record holding the empty lists to the day's history and
  writes it, rewrites the activity document with the entries it had (no new URL), reports
  zero new URLs and performs the notification reconcile with no new entries; both
  documents are in place when the run ends.
\<close>

theorem run_without_credentials:
  assumes "no_search_credentials ev" and "0 < results_per_keyword"
    and "day_runs w (take 10 run_at) = Some rs" and "activity_loads w"
  shows "\<exists>r w' doc rest.
     run_keywords_main x ev keywords results_per_keyword run_at w = (r, w') \<and>
     trace w' = trace w @ concat (map error_report keywords) @
                Wrote (HistoryFile (take 10 run_at)) doc # Wrote ActivityFile (JArr (activity w)) #
                Print (LNewUrls 0) # rest \<and>
     searches rest = [] \<and>
     subscript doc ''runs'' =
       Inr (JArr (rs @ [JObj [(''run_at'', JStr run_at), (''results'', results_json (empty_results keywords))]])) \<and>
     files w' (HistoryFile (take 10 run_at)) = Some (Json doc) \<and>
     files w' ActivityFile = Some (Json (JArr (activity w)))"
proof -
  let ?d = "take 10 run_at"
  define w1 where "w1 = w\<lparr>trace := trace w @ concat (map error_report keywords)\<rparr>"
  have s1: "search_all x ev results_per_keyword keywords [] w = (Inr (empty_results keywords), w1)"
    by (simp add: search_all_no_credentials [OF assms(1,2)] empty_results_def w1_def)
  have "day_runs w1 ?d = Some rs"
    using assms(3) by (simp add: day_runs_def w1_def)
  from save_history_appends [OF this] obtain doc where
    s2: "save_history run_at (empty_results keywords) w1 = (Inr (), write_file (HistoryFile ?d) doc w1)"
    and doc: "subscript doc ''runs'' =
       Inr (JArr (rs @ [JObj [(''run_at'', JStr run_at), (''results'', results_json (empty_results keywords))]]))"
    by blast
  define w2 where "w2 = write_file (HistoryFile ?d) doc w1"
  have a2: "activity_loads w2" and act2: "activity w2 = activity w"
    using assms(4) by (simp_all add: activity_loads_def activity_def w2_def w1_def)
  define w3 where "w3 = write_file ActivityFile (JArr (activity w)) w2"
  have s3: "save_activity run_at (empty_results keywords) w2 = (Inr [], w3)"
    using save_activity_nothing [OF a2 empty_results_lists] by (simp add: act2 w3_def)
  obtain r4 w4 where s4: "sync_telegram_bot_and_send x ev [] (emit (Print (LNewUrls 0)) w3) = (r4, w4)"
    by (cases "sync_telegram_bot_and_send x ev [] (emit (Print (LNewUrls 0)) w3)")
  from sync_trace [OF s4, of ?d] obtain t where
    t: "trace w4 = trace (emit (Print (LNewUrls 0)) w3) @ t" "searches t = []"
      "files w4 ActivityFile = files (emit (Print (LNewUrls 0)) w3) ActivityFile"
      "files w4 (HistoryFile ?d) = files (emit (Print (LNewUrls 0)) w3) (HistoryFile ?d)"
    by blast
  have tr4: "trace w4 = trace w @ concat (map error_report keywords) @
       Wrote (HistoryFile ?d) doc # Wrote ActivityFile (JArr (activity w)) # Print (LNewUrls 0) # t"
    using t(1) by (simp add: w3_def w2_def w1_def)
  have f4: "files w4 (HistoryFile ?d) = Some (Json doc)" "files w4 ActivityFile = Some (Json (JArr (activity w)))"
    using t(3,4) by (simp_all add: w3_def w2_def w1_def)
  show ?thesis
  proof (cases r4)
    case (Inl e)
    have "run_keywords_main x ev keywords results_per_keyword run_at w = (Inl e, w4)"
      using s1 s2 s3 s4 Inl by (simp add: run_keywords_main_def w2_def)
    with tr4 f4 t(2) doc show ?thesis by - (rule exI [of _ "Inl e"], rule exI [of _ w4], rule exI [of _ doc], rule exI [of _ t], simp)
  next
    case (Inr u)
    have "run_keywords_main x ev keywords results_per_keyword run_at w =
        (Inr (), emit (Print (LSaved ?d)) w4)"
      using s1 s2 s3 s4 Inr by (simp add: run_keywords_main_def w2_def)
    with tr4 f4 t(2) doc show ?thesis
      by - (rule exI [of _ "Inr ()"], rule exI [of _ "emit (Print (LSaved ?d)) w4"], rule exI [of _ doc],
          rule exI [of _ "t @ [Print (LSaved ?d)]"], simp)
  qed
qed


theorem run_without_credentials_witness:
  "no_search_credentials no_env \<and> (0::int) < 10 \<and>
   day_runs (stored ActivityFile (Json (JArr [activity_entry ''https://a.example'' ''X''])) empty_world)
     (take 10 ''2024-01-02T00:00:00Z'') = Some [] \<and>
   activity_loads (stored ActivityFile (Json (JArr [activity_entry ''https://a.example'' ''X''])) empty_world) \<and>
   (\<exists>r w' doc rest.
     run_keywords_main quiet_ext no_env [''X'', ''Y''] 10 ''2024-01-02T00:00:00Z''
       (stored ActivityFile (Json (JArr [activity_entry ''https://a.example'' ''X''])) empty_world) = (r, w') \<and>
     trace w' = concat (map error_report [''X'', ''Y'']) @
                Wrote (HistoryFile ''2024-01-02'') doc #
                Wrote ActivityFile (JArr [activity_entry ''https://a.example'' ''X'']) #
                Print (LNewUrls 0) # rest \<and>
     searches rest = [] \<and>
     subscript doc ''runs'' =
       Inr (JArr [JObj [(''run_at'', JStr ''2024-01-02T00:00:00Z''),
                        (''results'', JObj [(''X'', JArr []), (''Y'', JArr [])])]]) \<and>
     files w' (HistoryFile ''2024-01-02'') = Some (Json doc) \<and>
     files w' ActivityFile = Some (Json (JArr [activity_entry ''https://a.example'' ''X''])))"
proof -
  let ?w = "stored ActivityFile (Json (JArr [activity_entry ''https://a.example'' ''X''])) empty_world"
  have h1: "no_search_credentials no_env" by code_simp
  have h2: "(0::int) < 10" by simp
  have h3: "day_runs ?w (take 10 ''2024-01-02T00:00:00Z'') = Some []" by code_simp
  have h4: "activity_loads ?w" by code_simp
  have a: "activity ?w = [activity_entry ''https://a.example'' ''X'']" by code_simp
  have t: "trace ?w = []" by code_simp
  have d: "take 10 ''2024-01-02T00:00:00Z'' = ''2024-01-02''" by simp
  have e: "results_json (empty_results [''X'', ''Y'']) = JObj [(''X'', JArr []), (''Y'', JArr [])]"
    by code_simp
  from run_without_credentials [OF h1 h2 h3 h4, of quiet_ext "[''X'', ''Y'']"]
  show ?thesis unfolding a t d e using h1 h3 h4 unfolding d by simp
qed

text \<open>
  The specification as written has the run abort before anything is persisted. With
  delivery credentials but no search credentials, and one pending entry in the queue, the
  run completes: it writes the day's history, the activity document and the queue, and
  it sends the pending entry, which is marked sent in the written queue.
\<close>

theorem run_without_credentials_persists:
  "no_search_credentials telegram_env \<and>
   fst (run_keywords_main quiet_ext telegram_env [''X''] 10 ''2024-01-01T00:00:00Z''
          (stored TelegramBotFile (Json (JArr [queue_entry ''https://a.example'' ''X'' False])) empty_world)) = Inr () \<and>
   writes (trace (snd (run_keywords_main quiet_ext telegram_env [''X''] 10 ''2024-01-01T00:00:00Z''
          (stored TelegramBotFile (Json (JArr [queue_entry ''https://a.example'' ''X'' False])) empty_world)))) =
     [(HistoryFile ''2024-01-01'',
       JObj [(''date'', JStr ''2024-01-01''),
             (''runs'', JArr [JObj [(''run_at'', JStr ''2024-01-01T00:00:00Z''),
                                    (''results'', JObj [(''X'', JArr [])])]])]),
      (ActivityFile, JArr []),
      (TelegramBotFile, JArr [queue_entry ''https://a.example'' ''X'' True])] \<and>
   map fst (sends (trace (snd (run_keywords_main quiet_ext telegram_env [''X''] 10 ''2024-01-01T00:00:00Z''
          (stored TelegramBotFile (Json (JArr [queue_entry ''https://a.example'' ''X'' False])) empty_world))))) =
     [Message (JStr ''X'') (JStr ''https://a.example'')] \<and>
   files (snd (run_keywords_main quiet_ext telegram_env [''X''] 10 ''2024-01-01T00:00:00Z''
          (stored TelegramBotFile (Json (JArr [queue_entry ''https://a.example'' ''X'' False])) empty_world)))
     TelegramBotFile = Some (Json (JArr [queue_entry ''https://a.example'' ''X'' True]))"
  by code_simp

section \<open>Transitions of the sent flag\<close>



lemma flipped_same [simp]: "flipped bl bl = []"
  by (simp add: flipped_def)










lemma is_pending_to_queue [simp]: "is_pending (to_queue False e)"
  by (simp add: to_queue_def is_pending_def)












end
